theory Spec2Isabelle
  imports Main "HOL-Library.Multiset"
begin

section \<open>JavaScript values of a decoded workflow document\<close>

text \<open>
  The workflow functions of \<^verbatim>\<open>utils/workflow.js\<close> receive the request body's
  \<^verbatim>\<open>content\<close>, a value decoded from JSON. Such a value is null, a boolean, a number,
  a string, an array or a plain object. An object is the list of its own properties in
  enumeration order (the order of \<^verbatim>\<open>Object.entries\<close>). A property that is absent
  reads as \<^verbatim>\<open>undefined\<close>, which is \<open>None\<close> here. The numbers of the model are the
  integers, printed in decimal: the model is exact for the integers below \<open>2 ^ 53\<close> in
  magnitude (fractions and exponents are floating point and stay outside, and the host
  rounds a larger integer and prints it with an exponent from \<open>10 ^ 21\<close> on). A string
  is the list of its code units, one \<open>char\<close> each, so the strings of the model are those
  with code units below 256, and \<open>length\<close> is \<^verbatim>\<open>.length\<close>.
\<close>

datatype json =
    JNull
  | JBool bool
  | JNum int
  | JStr string
  | JArr "json list"
  | JObj "(string \<times> json) list"

datatype exn = TypeError

datatype jstype = TObject | TBoolean | TNumber | TString | TUndefined

fun typeof :: "json option \<Rightarrow> jstype" where
  "typeof None = TUndefined"
| "typeof (Some JNull) = TObject"
| "typeof (Some (JBool b)) = TBoolean"
| "typeof (Some (JNum n)) = TNumber"
| "typeof (Some (JStr s)) = TString"
| "typeof (Some (JArr vs)) = TObject"
| "typeof (Some (JObj kvs)) = TObject"

text \<open>Truthiness: what \<^verbatim>\<open>!v\<close>, \<^verbatim>\<open>v && w\<close> and \<^verbatim>\<open>v || w\<close> test.\<close>

fun truthy :: "json option \<Rightarrow> bool" where
  "truthy None = False"
| "truthy (Some JNull) = False"
| "truthy (Some (JBool b)) = b"
| "truthy (Some (JNum n)) = (n \<noteq> 0)"
| "truthy (Some (JStr s)) = (s \<noteq> [])"
| "truthy (Some (JArr vs)) = True"
| "truthy (Some (JObj kvs)) = True"

text \<open>
  \<^verbatim>\<open>v.k\<close> for a value that is not null: an own property of an object. The names the
  code reads (nodes, edges, variables, id, type, data, config, moduleType, position,
  source, target, sourceHandle, targetHandle, name) are inherited by no object, array,
  string, number or boolean, so every other read is \<^verbatim>\<open>undefined\<close>.
\<close>

fun get :: "json \<Rightarrow> string \<Rightarrow> json option" where
  "get (JObj kvs) k = map_of kvs k"
| "get v k = None"

text \<open>\<^verbatim>\<open>v?.k\<close> and reads that the code guards by a truthiness test.\<close>

fun getOpt :: "json option \<Rightarrow> string \<Rightarrow> json option" where
  "getOpt None k = None"
| "getOpt (Some v) k = get v k"

text \<open>\<^verbatim>\<open>v || d\<close>: the left operand when it is truthy, else the right one.\<close>

fun orElse :: "json option \<Rightarrow> json \<Rightarrow> json" where
  "orElse None d = d"
| "orElse (Some v) d = (if truthy (Some v) then v else d)"

fun isArray :: "json option \<Rightarrow> bool" where
  "isArray (Some (JArr vs)) = True"
| "isArray v = False"

text \<open>
  Strict equality \<^verbatim>\<open>===\<close> and the SameValueZero of \<^verbatim>\<open>Set\<close>: primitives by value;
  two arrays or objects found at different places of a document are different references.
\<close>

fun strictEq :: "json option \<Rightarrow> json option \<Rightarrow> bool" where
  "strictEq None None = True"
| "strictEq (Some JNull) (Some JNull) = True"
| "strictEq (Some (JBool a)) (Some (JBool b)) = (a = b)"
| "strictEq (Some (JNum a)) (Some (JNum b)) = (a = b)"
| "strictEq (Some (JStr a)) (Some (JStr b)) = (a = b)"
| "strictEq a b = False"

subsection \<open>Number and string conversion\<close>

definition digit :: "nat \<Rightarrow> char" where
  "digit d = ''0123456789'' ! d"

fun natToString :: "nat \<Rightarrow> string" where
  "natToString n = (if n < 10 then [digit n] else natToString (n div 10) @ [digit (n mod 10)])"

declare natToString.simps [simp del]

definition intToString :: "int \<Rightarrow> string" where
  "intToString i = (if i < 0 then CHR ''-'' # natToString (nat (- i)) else natToString (nat i))"

definition hexDigit :: "nat \<Rightarrow> char" where
  "hexDigit d = ''0123456789abcdef'' ! d"

text \<open>
  \<^verbatim>\<open>QuoteJSONString\<close>: the quote and the backslash get a backslash, the control
  characters their short escape or \<^verbatim>\<open>\u00xx\<close>, every other code unit stands for itself.
\<close>

definition escapeChar :: "char \<Rightarrow> string" where
  "escapeChar c =
     (if c = CHR 0x22 then [CHR 0x5C, CHR 0x22]
      else if c = CHR 0x5C then [CHR 0x5C, CHR 0x5C]
      else if c = CHR 0x08 then [CHR 0x5C, CHR ''b'']
      else if c = CHR 0x09 then [CHR 0x5C, CHR ''t'']
      else if c = CHR 0x0A then [CHR 0x5C, CHR ''n'']
      else if c = CHR 0x0C then [CHR 0x5C, CHR ''f'']
      else if c = CHR 0x0D then [CHR 0x5C, CHR ''r'']
      else if (of_char c :: nat) < 32 then
        [CHR 0x5C, CHR ''u'', CHR ''0'', CHR ''0'',
         hexDigit (of_char c div 16), hexDigit (of_char c mod 16)]
      else [c])"

definition quoteJSONString :: "string \<Rightarrow> string" where
  "quoteJSONString s = CHR 0x22 # concat (map escapeChar s) @ [CHR 0x22]"

text \<open>
  \<^verbatim>\<open>JSON.stringify\<close> of a decoded value (no indentation): the properties of an object in
  enumeration order, the elements of an array in order, separated by commas. A decoded
  value has no callable \<^verbatim>\<open>toJSON\<close> and holds no \<^verbatim>\<open>undefined\<close>, so the result is always
  a string. The routine of the host is recursive and throws a RangeError on a value
  that is nested deeper than its stack holds; \<open>stringify\<close> has no such limit, and a
  statement that a call returns is made for values of a bounded \<open>depth\<close>, the number of
  arrays and objects that are nested in one another.
\<close>

fun stringify :: "json \<Rightarrow> string"
  and stringifyElems :: "json list \<Rightarrow> string"
  and stringifyProps :: "(string \<times> json) list \<Rightarrow> string" where
  "stringify JNull = ''null''"
| "stringify (JBool b) = (if b then ''true'' else ''false'')"
| "stringify (JNum n) = intToString n"
| "stringify (JStr s) = quoteJSONString s"
| "stringify (JArr vs) = ''['' @ stringifyElems vs @ '']''"
| "stringify (JObj kvs) = ''{'' @ stringifyProps kvs @ ''}''"
| "stringifyElems [] = []"
| "stringifyElems [v] = stringify v"
| "stringifyElems (v # w # ws) = stringify v @ '','' @ stringifyElems (w # ws)"
| "stringifyProps [] = []"
| "stringifyProps [(k, v)] = quoteJSONString k @ '':'' @ stringify v"
| "stringifyProps ((k, v) # p # ps) =
     quoteJSONString k @ '':'' @ stringify v @ '','' @ stringifyProps (p # ps)"

fun depth :: "json \<Rightarrow> nat"
  and depthElems :: "json list \<Rightarrow> nat"
  and depthProps :: "(string \<times> json) list \<Rightarrow> nat" where
  "depth (JArr vs) = Suc (depthElems vs)"
| "depth (JObj kvs) = Suc (depthProps kvs)"
| "depth v = 0"
| "depthElems [] = 0"
| "depthElems (v # vs) = max (depth v) (depthElems vs)"
| "depthProps [] = 0"
| "depthProps ((k, v) # ps) = max (depth v) (depthProps ps)"

text \<open>
  \<^verbatim>\<open>ToString\<close>, as \<^verbatim>\<open>Array.prototype.join\<close>, a template literal and the argument of
  \<^verbatim>\<open>localeCompare\<close> apply it. An array joins its elements with a comma (null as the
  empty string). A plain object gives \<^verbatim>\<open>[object Object]\<close> through the inherited
  \<^verbatim>\<open>toString\<close>; when the object has an own property \<^verbatim>\<open>toString\<close>, that value is not
  callable, \<^verbatim>\<open>valueOf\<close> yields no primitive either, and the conversion throws a TypeError.
\<close>

fun toString :: "json \<Rightarrow> exn + string"
  and joinElems :: "string \<Rightarrow> json list \<Rightarrow> exn + string" where
  "toString JNull = Inr ''null''"
| "toString (JBool b) = Inr (if b then ''true'' else ''false'')"
| "toString (JNum n) = Inr (intToString n)"
| "toString (JStr s) = Inr s"
| "toString (JArr vs) = joinElems '','' vs"
| "toString (JObj kvs) =
     (if map_of kvs ''toString'' \<noteq> None then Inl TypeError else Inr ''[object Object]'')"
| "joinElems sep [] = Inr []"
| "joinElems sep (v # vs) =
     (case (if v = JNull then Inr [] else toString v) of
        Inl e \<Rightarrow> Inl e
      | Inr s \<Rightarrow>
          (if vs = [] then Inr s
           else (case joinElems sep vs of Inl e \<Rightarrow> Inl e | Inr r \<Rightarrow> Inr (s @ sep @ r))))"

section \<open>The validator: \<^verbatim>\<open>validateWorkflowContent\<close>\<close>

text \<open>
  The verdict \<^verbatim>\<open>{ valid: true, nodeCount }\<close> is \<open>Valid nodeCount\<close>; the verdict
  \<^verbatim>\<open>{ valid: false, error }\<close> is \<open>Invalid e\<close>, where \<open>e\<close> names the message of the
  \<^verbatim>\<open>return\<close> statement and carries the values the message interpolates.
\<close>

datatype verr =
    InvalidJson
  | ShouldBeObject
  | MissingNodes
  | MissingEdges
  | NodesNotArray
  | EdgesNotArray
  | NoNodes
  | TooManyNodes
  | NodeFormat nat
  | NodeMissingId nat
  | NodeMissingType string
  | NodePosition string
  | NodeDataTooLarge string
  | NoValidModuleType
  | TooManyUnsupported nat
  | UnsupportedTypes string
  | EdgeFormat nat
  | EdgeMissingSource nat
  | EdgeMissingTarget nat
  | EdgeSourceNotFound string
  | EdgeTargetNotFound string
  | VariablesNotArray
  | VariableFormat nat
  | VariableMissingName nat
  | ContentTooLarge

datatype verdict = Valid nat | Invalid verr

definition validModuleTypes :: "string list" where
  "validModuleTypes =
    [''open_page'', ''click_element'', ''input_text'', ''get_element_info'', ''wait'',
     ''wait_element'', ''close_page'', ''refresh_page'', ''go_back'', ''go_forward'',
     ''handle_dialog'', ''select_dropdown'', ''set_checkbox'', ''drag_element'',
     ''scroll_page'', ''upload_file'', ''set_variable'', ''json_parse'', ''base64'',
     ''random_number'', ''get_time'', ''download_file'', ''save_image'', ''screenshot'',
     ''read_excel'', ''hover_element'', ''string_concat'',
     ''regex_extract'', ''string_replace'', ''string_split'', ''string_join'',
     ''string_trim'', ''string_case'', ''string_substring'',
     ''list_operation'', ''list_get'', ''list_length'',
     ''dict_operation'', ''dict_get'', ''dict_keys'',
     ''table_add_row'', ''table_add_column'', ''table_set_cell'', ''table_get_cell'',
     ''table_delete_row'', ''table_clear'', ''table_export'',
     ''db_connect'', ''db_query'', ''db_execute'', ''db_insert'', ''db_update'',
     ''db_delete'', ''db_close'',
     ''api_request'', ''send_email'',
     ''ai_chat'', ''ai_vision'',
     ''ocr_captcha'', ''slider_captcha'',
     ''condition'', ''loop'', ''foreach'', ''break_loop'', ''continue_loop'',
     ''scheduled_task'',
     ''subflow'',
     ''print_log'', ''play_sound'', ''play_music'', ''input_prompt'', ''text_to_speech'',
     ''js_script'', ''set_clipboard'', ''get_clipboard'', ''keyboard_action'',
     ''real_mouse_scroll'',
     ''group'', ''note'']"

definition validReactFlowTypes :: "string list" where
  "validReactFlowTypes = [''moduleNode'', ''groupNode'', ''noteNode'']"

text \<open>\<^verbatim>\<open>set.has(v)\<close> for a \<^verbatim>\<open>Set\<close> of strings: only a string can be a member.\<close>

fun has :: "string list \<Rightarrow> json option \<Rightarrow> bool" where
  "has S (Some (JStr s)) = (s \<in> set S)"
| "has S v = False"

text \<open>
  The module type the loop resolves for a node: \<^verbatim>\<open>node.data.moduleType\<close> when
  \<^verbatim>\<open>node.data\<close> and it are truthy, else \<^verbatim>\<open>node.type\<close> when truthy, else null
  (\<open>None\<close>).
\<close>

definition moduleTypeOf :: "json \<Rightarrow> json option" where
  "moduleTypeOf node =
     (if truthy (get node ''data'') \<and> truthy (getOpt (get node ''data'') ''moduleType'')
      then getOpt (get node ''data'') ''moduleType''
      else if truthy (get node ''type'') then get node ''type''
      else None)"

text \<open>The string of a value known to be a string.\<close>

fun strOf :: "json option \<Rightarrow> string" where
  "strOf (Some (JStr s)) = s"
| "strOf v = []"

text \<open>
  One turn of the loop over \<^verbatim>\<open>content.nodes\<close>, for the node at index \<open>i\<close>, with the
  counters \<^verbatim>\<open>validNodeCount\<close> and \<^verbatim>\<open>invalidTypes\<close>: \<open>Inl\<close> is a \<^verbatim>\<open>return\<close> inside the
  loop, \<open>Inr\<close> the counters after the turn.
\<close>

definition countType :: "json option \<Rightarrow> nat \<times> json list \<Rightarrow> nat \<times> json list" where
  "countType moduleType st =
     (if has validModuleTypes moduleType then (fst st + 1, snd st)
      else if \<not> has validReactFlowTypes moduleType
        then (fst st, snd st @ (case moduleType of None \<Rightarrow> [] | Some t \<Rightarrow> [t]))
      else st)"

definition checkNode :: "nat \<Rightarrow> json \<Rightarrow> nat \<times> json list \<Rightarrow> verr + nat \<times> json list" where
  "checkNode i node st =
     (if \<not> truthy (Some node) \<or> typeof (Some node) \<noteq> TObject then Inl (NodeFormat (i + 1))
      else if \<not> truthy (get node ''id'') \<or> typeof (get node ''id'') \<noteq> TString
        then Inl (NodeMissingId (i + 1))
      else if \<not> truthy (moduleTypeOf node) then Inl (NodeMissingType (strOf (get node ''id'')))
      else
        (let st' = countType (moduleTypeOf node) st in
         if truthy (get node ''position'') \<and> typeof (get node ''position'') \<noteq> TObject
           then Inl (NodePosition (strOf (get node ''id'')))
         else if length (stringify (orElse (get node ''data'') (JObj []))) > 50000
           then Inl (NodeDataTooLarge (strOf (get node ''id'')))
         else Inr st'))"

fun checkNodes :: "nat \<Rightarrow> json list \<Rightarrow> nat \<times> json list \<Rightarrow> verr + nat \<times> json list" where
  "checkNodes i [] st = Inr st"
| "checkNodes i (node # rest) st =
     (case checkNode i node st of
        Inl e \<Rightarrow> Inl e
      | Inr st' \<Rightarrow> checkNodes (i + 1) rest st')"

text \<open>\<^verbatim>\<open>[...new Set(invalidTypes)]\<close>: the first occurrence of each value, in order.\<close>

fun uniqueValues :: "json list \<Rightarrow> json list" where
  "uniqueValues [] = []"
| "uniqueValues (v # vs) = v # uniqueValues (filter (\<lambda>w. \<not> strictEq (Some v) (Some w)) vs)"

text \<open>The loop over \<^verbatim>\<open>content.edges\<close>; \<open>ids\<close> are the members of \<^verbatim>\<open>nodeIds\<close>.\<close>

definition checkEdge :: "json option list \<Rightarrow> nat \<Rightarrow> json \<Rightarrow> verr option" where
  "checkEdge ids i edge =
     (if \<not> truthy (Some edge) \<or> typeof (Some edge) \<noteq> TObject then Some (EdgeFormat (i + 1))
      else if \<not> truthy (get edge ''source'') \<or> typeof (get edge ''source'') \<noteq> TString
        then Some (EdgeMissingSource (i + 1))
      else if \<not> truthy (get edge ''target'') \<or> typeof (get edge ''target'') \<noteq> TString
        then Some (EdgeMissingTarget (i + 1))
      else if \<not> list_ex (\<lambda>x. strictEq x (get edge ''source'')) ids
        then Some (EdgeSourceNotFound (strOf (get edge ''source'')))
      else if \<not> list_ex (\<lambda>x. strictEq x (get edge ''target'')) ids
        then Some (EdgeTargetNotFound (strOf (get edge ''target'')))
      else None)"

fun checkEdges :: "json option list \<Rightarrow> nat \<Rightarrow> json list \<Rightarrow> verr option" where
  "checkEdges ids i [] = None"
| "checkEdges ids i (edge # rest) =
     (case checkEdge ids i edge of
        Some e \<Rightarrow> Some e
      | None \<Rightarrow> checkEdges ids (i + 1) rest)"

text \<open>The loop over \<^verbatim>\<open>content.variables\<close>.\<close>

definition checkVariable :: "nat \<Rightarrow> json \<Rightarrow> verr option" where
  "checkVariable i variable =
     (if \<not> truthy (Some variable) \<or> typeof (Some variable) \<noteq> TObject
        then Some (VariableFormat (i + 1))
      else if \<not> truthy (get variable ''name'') \<or> typeof (get variable ''name'') \<noteq> TString
        then Some (VariableMissingName (i + 1))
      else None)"

fun checkVariables :: "nat \<Rightarrow> json list \<Rightarrow> verr option" where
  "checkVariables i [] = None"
| "checkVariables i (variable # rest) =
     (case checkVariable i variable of
        Some e \<Rightarrow> Some e
      | None \<Rightarrow> checkVariables (i + 1) rest)"

text \<open>The elements of an array; the code reads them only after \<^verbatim>\<open>Array.isArray\<close>.\<close>

fun elems :: "json option \<Rightarrow> json list" where
  "elems (Some (JArr vs)) = vs"
| "elems v = []"

text \<open>
  The checks after the node loop: the counters, the edges, the variables, the total
  size. The message for at most three unsupported types joins them with
  \<^verbatim>\<open>join(', ')\<close>, which converts each to a string and can throw.
\<close>

definition afterNodes :: "json \<Rightarrow> nat \<times> json list \<Rightarrow> exn + verdict" where
  "afterNodes content st =
     (if fst st = 0 then Inr (Invalid NoValidModuleType)
      else if length (snd st) > 0 then
        (let uniqueInvalid = uniqueValues (snd st) in
         if length uniqueInvalid > 3 then Inr (Invalid (TooManyUnsupported (length uniqueInvalid)))
         else (case joinElems '', '' (take 3 uniqueInvalid) of
                 Inl e \<Rightarrow> Inl e
               | Inr s \<Rightarrow>
                   Inr (Invalid (UnsupportedTypes
                     (s @ (if length uniqueInvalid > 3 then ''...'' else []))))))
      else
        (case checkEdges (map (\<lambda>n. get n ''id'') (elems (get content ''nodes''))) 0
                (elems (get content ''edges'')) of
           Some e \<Rightarrow> Inr (Invalid e)
         | None \<Rightarrow>
            (if get content ''variables'' \<noteq> None \<and> \<not> isArray (get content ''variables'')
               then Inr (Invalid VariablesNotArray)
             else
               (case checkVariables 0 (elems (get content ''variables'')) of
                  Some e \<Rightarrow> Inr (Invalid e)
                | None \<Rightarrow>
                   (if length (stringify content) > 500000 then Inr (Invalid ContentTooLarge)
                    else Inr (Valid (length (elems (get content ''nodes'')))))))))"

text \<open>
  \<open>Inl TypeError\<close> is an exception that leaves the function; \<open>Inr\<close> is the verdict it
  returns. The argument is \<open>None\<close> when the caller passes \<^verbatim>\<open>undefined\<close>.
\<close>

definition validateWorkflowContent :: "json option \<Rightarrow> exn + verdict" where
  "validateWorkflowContent c =
     (case c of
        None \<Rightarrow> Inr (Invalid InvalidJson)
      | Some content \<Rightarrow>
         (if \<not> truthy c \<or> typeof c \<noteq> TObject then Inr (Invalid InvalidJson)
          else if isArray c then Inr (Invalid ShouldBeObject)
          else if get content ''nodes'' = None then Inr (Invalid MissingNodes)
          else if get content ''edges'' = None then Inr (Invalid MissingEdges)
          else if \<not> isArray (get content ''nodes'') then Inr (Invalid NodesNotArray)
          else if \<not> isArray (get content ''edges'') then Inr (Invalid EdgesNotArray)
          else if length (elems (get content ''nodes'')) = 0 then Inr (Invalid NoNodes)
          else if length (elems (get content ''nodes'')) > 500 then Inr (Invalid TooManyNodes)
          else
            (case checkNodes 0 (elems (get content ''nodes'')) (0, []) of
               Inl e \<Rightarrow> Inr (Invalid e)
             | Inr st \<Rightarrow> afterNodes content st)))"

section \<open>The fingerprint: \<^verbatim>\<open>calculateWorkflowHash\<close>\<close>

text \<open>
  Two functions of the host are parameters of the model: \<open>lc a b\<close> is
  \<^verbatim>\<open>a.localeCompare(b)\<close>, the collation of the host's locale, and \<open>sha\<close> is the SHA-256
  digest of \<^verbatim>\<open>crypto\<close> in hexadecimal. An exception that a step throws leaves every
  enclosing function: \<open>bindE\<close> passes it on.
\<close>

definition bindE :: "exn + 'a \<Rightarrow> ('a \<Rightarrow> exn + 'b) \<Rightarrow> exn + 'b" where
  "bindE x f = (case x of Inl e \<Rightarrow> Inl e | Inr v \<Rightarrow> f v)"

text \<open>\<^verbatim>\<open>xs.map(f)\<close>, left to right, for a callback that can throw.\<close>

fun mapE :: "('a \<Rightarrow> exn + 'b) \<Rightarrow> 'a list \<Rightarrow> exn + 'b list" where
  "mapE f [] = Inr []"
| "mapE f (x # xs) = bindE (f x) (\<lambda>y. bindE (mapE f xs) (\<lambda>ys. Inr (y # ys)))"

text \<open>
  \<^verbatim>\<open>(v || [])\<close> as the receiver of \<^verbatim>\<open>map\<close> or \<^verbatim>\<open>find\<close>: a truthy value that is not an
  array has neither method, and the call throws.
\<close>

fun arrayOrEmpty :: "json option \<Rightarrow> exn + json list" where
  "arrayOrEmpty (Some (JArr vs)) = Inr vs"
| "arrayOrEmpty v = (if truthy v then Inl TypeError else Inr [])"

text \<open>
  \<^verbatim>\<open>Object.entries\<close> of a truthy value: the properties of an object, the elements of an
  array under their indices, the code units of a string under theirs, nothing for a
  number or a boolean. (The caller passes \<^verbatim>\<open>node.data || node.config || {}\<close>, never null.)
\<close>

fun objectEntries :: "json \<Rightarrow> (string \<times> json) list" where
  "objectEntries (JObj kvs) = kvs"
| "objectEntries (JArr vs) = zip (map natToString [0..<length vs]) vs"
| "objectEntries (JStr s) = zip (map natToString [0..<length s]) (map (\<lambda>c. JStr [c]) s)"
| "objectEntries v = []"

text \<open>
  \<^verbatim>\<open>normalized[key] = value\<close> on an object literal: a new property goes to the end, an
  existing one is overwritten, and the key \<^verbatim>\<open>__proto__\<close> reaches the inherited setter,
  which creates no own property.
\<close>

definition setProperty :: "(string \<times> json) list \<Rightarrow> string \<Rightarrow> json \<Rightarrow> (string \<times> json) list" where
  "setProperty props key v =
     (if key = ''__proto__'' then props
      else if map_of props key \<noteq> None then map (\<lambda>p. if fst p = key then (key, v) else p) props
      else props @ [(key, v)])"

definition ignoreKeys :: "string list" where
  "ignoreKeys = [''label'', ''name'', ''description'', ''x'', ''y'', ''position'', ''id'']"

text \<open>
  \<^verbatim>\<open>normalizeNodeData\<close>: \<open>normalizeStep\<close> is the body of the loop over the entries,
  \<open>normalized\<close> the object built so far.
\<close>

definition normalizeStep :: "(string \<times> json) list \<Rightarrow> string \<times> json \<Rightarrow> (string \<times> json) list" where
  "normalizeStep normalized entry =
     (if fst entry \<notin> set ignoreKeys \<and> snd entry \<noteq> JNull \<and> snd entry \<noteq> JStr []
      then setProperty normalized (fst entry) (snd entry) else normalized)"

definition normalizeNodeData :: "json \<Rightarrow> json" where
  "normalizeNodeData data = JObj (foldl normalizeStep [] (objectEntries data))"

text \<open>
  The objects \<^verbatim>\<open>{ type, data }\<close> and
  \<^verbatim>\<open>{ sourceType, targetType, sourceHandle, targetHandle }\<close> that the two \<^verbatim>\<open>map\<close> calls
  build. \<open>ctype\<close> is \<open>None\<close> when \<^verbatim>\<open>node.type\<close> is \<^verbatim>\<open>undefined\<close>; \<^verbatim>\<open>JSON.stringify\<close>
  leaves such a property out.
\<close>

datatype cnode = CNode (ctype: "json option") (cdata: json)

datatype cedge = CEdge (sourceType: json) (targetType: json) (sourceHandle: json) (targetHandle: json)

definition cnodeJson :: "cnode \<Rightarrow> json" where
  "cnodeJson n =
     JObj ((case ctype n of None \<Rightarrow> [] | Some t \<Rightarrow> [(''type'', t)]) @ [(''data'', cdata n)])"

definition cedgeJson :: "cedge \<Rightarrow> json" where
  "cedgeJson e =
     JObj [(''sourceType'', sourceType e), (''targetType'', targetType e),
           (''sourceHandle'', sourceHandle e), (''targetHandle'', targetHandle e)]"

text \<open>The callback of \<^verbatim>\<open>content.nodes.map\<close>; reading \<^verbatim>\<open>node.type\<close> of null throws.\<close>

definition canonNode :: "json \<Rightarrow> exn + cnode" where
  "canonNode node =
     (if node = JNull then Inl TypeError
      else Inr (CNode (get node ''type'')
                  (normalizeNodeData
                     (orElse (get node ''data'') (orElse (get node ''config'') (JObj []))))))"

text \<open>
  \<^verbatim>\<open>findNodeType\<close>: the first node whose \<^verbatim>\<open>id\<close> is strictly equal to \<open>nodeId\<close>; its
  \<^verbatim>\<open>type\<close> when there is one and it is truthy, else \<^verbatim>\<open>'unknown'\<close>.
\<close>

fun findNode :: "json list \<Rightarrow> json option \<Rightarrow> exn + json option" where
  "findNode [] nodeId = Inr None"
| "findNode (n # ns) nodeId =
     (if n = JNull then Inl TypeError
      else if strictEq (get n ''id'') nodeId then Inr (Some n)
      else findNode ns nodeId)"

definition findNodeType :: "json option \<Rightarrow> json option \<Rightarrow> exn + json" where
  "findNodeType nodes nodeId =
     bindE (arrayOrEmpty nodes) (\<lambda>ns.
     bindE (findNode ns nodeId) (\<lambda>node.
     Inr (orElse (getOpt node ''type'') (JStr ''unknown''))))"

text \<open>The callback of \<^verbatim>\<open>content.edges.map\<close>; reading \<^verbatim>\<open>edge.source\<close> of null throws.\<close>

definition canonEdge :: "json option \<Rightarrow> json \<Rightarrow> exn + cedge" where
  "canonEdge nodes edge =
     (if edge = JNull then Inl TypeError
      else
        bindE (findNodeType nodes (get edge ''source'')) (\<lambda>st.
        bindE (findNodeType nodes (get edge ''target'')) (\<lambda>tt.
        Inr (CEdge st tt (orElse (get edge ''sourceHandle'') JNull)
                         (orElse (get edge ''targetHandle'') JNull)))))"

text \<open>
  The comparison function of the node sort. \<^verbatim>\<open>(a.type || '')\<close> must be a string to have
  the method \<^verbatim>\<open>localeCompare\<close>: on any other truthy value the call throws. The argument
  is converted to a string.
\<close>

definition compareNodes :: "(string \<Rightarrow> string \<Rightarrow> int) \<Rightarrow> cnode \<Rightarrow> cnode \<Rightarrow> exn + int" where
  "compareNodes lc a b =
     (case orElse (ctype a) (JStr []) of
        JStr s \<Rightarrow>
          bindE (toString (orElse (ctype b) (JStr []))) (\<lambda>t.
            (let typeCompare = lc s t in
             if typeCompare \<noteq> 0 then Inr typeCompare
             else Inr (lc (stringify (cdata a)) (stringify (cdata b)))))
      | _ \<Rightarrow> Inl TypeError)"

definition compareEdges :: "(string \<Rightarrow> string \<Rightarrow> int) \<Rightarrow> cedge \<Rightarrow> cedge \<Rightarrow> exn + int" where
  "compareEdges lc a b = Inr (lc (stringify (cedgeJson a)) (stringify (cedgeJson b)))"

text \<open>
  \<^verbatim>\<open>Array.prototype.sort\<close> with a comparison function: a stable sort, here the insertion
  sort that takes the elements from left to right and moves each one to the left, past
  the elements it compares less than. \<open>insertBy cmp x placed\<close> inserts \<open>x\<close> into the
  elements before it, which are held nearest first; the comparison function gets the
  element being inserted as its first argument, as the host's sort calls it for the
  first two elements of an array. An exception of the comparison function ends the sort.
  (The language fixes neither the algorithm nor the order of the calls; it fixes the
  result for a consistent comparison function.)
\<close>

fun insertBy :: "('a \<Rightarrow> 'a \<Rightarrow> exn + int) \<Rightarrow> 'a \<Rightarrow> 'a list \<Rightarrow> exn + 'a list" where
  "insertBy cmp x [] = Inr [x]"
| "insertBy cmp x (y # placed) =
     bindE (cmp x y) (\<lambda>c.
       if c < 0 then bindE (insertBy cmp x placed) (\<lambda>r. Inr (y # r))
       else Inr (x # y # placed))"

fun sortFrom :: "('a \<Rightarrow> 'a \<Rightarrow> exn + int) \<Rightarrow> 'a list \<Rightarrow> 'a list \<Rightarrow> exn + 'a list" where
  "sortFrom cmp placed [] = Inr (rev placed)"
| "sortFrom cmp placed (x # xs) = bindE (insertBy cmp x placed) (\<lambda>placed'. sortFrom cmp placed' xs)"

definition sortBy :: "('a \<Rightarrow> 'a \<Rightarrow> exn + int) \<Rightarrow> 'a list \<Rightarrow> exn + 'a list" where
  "sortBy cmp xs = sortFrom cmp [] xs"

datatype canon = Canon (cnodes: "cnode list") (cedges: "cedge list")

definition canonJson :: "canon \<Rightarrow> json" where
  "canonJson c =
     JObj [(''nodes'', JArr (map cnodeJson (cnodes c))),
           (''edges'', JArr (map cedgeJson (cedges c)))]"

text \<open>\<^verbatim>\<open>normalizeWorkflowForHash\<close>; reading \<^verbatim>\<open>content.nodes\<close> of null throws.\<close>

definition normalizeWorkflowForHash :: "(string \<Rightarrow> string \<Rightarrow> int) \<Rightarrow> json \<Rightarrow> exn + canon" where
  "normalizeWorkflowForHash lc content =
     (if content = JNull then Inl TypeError
      else
        bindE (arrayOrEmpty (get content ''nodes'')) (\<lambda>ns.
        bindE (mapE canonNode ns) (\<lambda>mapped.
        bindE (sortBy (compareNodes lc) mapped) (\<lambda>nodes.
        bindE (arrayOrEmpty (get content ''edges'')) (\<lambda>es.
        bindE (mapE (canonEdge (get content ''nodes'')) es) (\<lambda>mappedEdges.
        bindE (sortBy (compareEdges lc) mappedEdges) (\<lambda>edges.
        Inr (Canon nodes edges))))))))"

text \<open>The string that is hashed, and the digest.\<close>

definition canonicalString :: "(string \<Rightarrow> string \<Rightarrow> int) \<Rightarrow> json \<Rightarrow> exn + string" where
  "canonicalString lc content =
     bindE (normalizeWorkflowForHash lc content) (\<lambda>normalizedContent.
     Inr (stringify (canonJson normalizedContent)))"

definition calculateWorkflowHash ::
    "(string \<Rightarrow> string \<Rightarrow> int) \<Rightarrow> (string \<Rightarrow> 'h) \<Rightarrow> json \<Rightarrow> exn + 'h" where
  "calculateWorkflowHash lc sha content =
     bindE (canonicalString lc content) (\<lambda>jsonStr. Inr (sha jsonStr))"

text \<open>\<^verbatim>\<open>sanitizeWorkflow\<close> returns its argument.\<close>

definition sanitizeWorkflow :: "json \<Rightarrow> json" where
  "sanitizeWorkflow content = content"

section \<open>A comparison function for the examples\<close>

text \<open>
  \<^verbatim>\<open>localeCompare\<close> depends on the host and its locale. Where a theorem below evaluates
  the fingerprint functions on a concrete document, \<open>lc\<close> is this comparison of the code
  units, one of the consistent comparison functions; the general theorems hold for every
  \<open>lc\<close>.
\<close>

fun codeUnitCompare :: "string \<Rightarrow> string \<Rightarrow> int" where
  "codeUnitCompare [] [] = 0"
| "codeUnitCompare [] (y # ys) = - 1"
| "codeUnitCompare (x # xs) [] = 1"
| "codeUnitCompare (x # xs) (y # ys) =
     (if (of_char x :: nat) < of_char y then - 1
      else if (of_char y :: nat) < of_char x then 1
      else codeUnitCompare xs ys)"

section \<open>Comparison functions that order strictly\<close>

text \<open>
  What the sort needs of its comparison function to give one result for every order of
  its input. \<open>strictCollation lc\<close>: the host's comparison of strings returns 0 on equal
  strings only and is a strict total order. (A collation of a host may return 0 on two
  different strings that it takes for equivalent; such a host does not meet this.)
  \<open>strictOrderOn S cmp f\<close>: on the elements of \<open>S\<close> the comparison function \<open>cmp\<close> does not
  throw, returns \<open>f\<close>, and \<open>f\<close> is a strict total order. \<open>typeKey a\<close> is the string
  \<^verbatim>\<open>(a.type || '')\<close> of a node whose \<^verbatim>\<open>type\<close> is a string.
\<close>

definition strictCollation :: "(string \<Rightarrow> string \<Rightarrow> int) \<Rightarrow> bool" where
  "strictCollation lc \<longleftrightarrow>
     (\<forall>a b. lc a b = 0 \<longleftrightarrow> a = b) \<and>
     (\<forall>a b. lc a b < 0 \<longleftrightarrow> 0 < lc b a) \<and>
     (\<forall>a b c. lc a b < 0 \<longrightarrow> lc b c < 0 \<longrightarrow> lc a c < 0)"

definition strictOrderOn :: "'a set \<Rightarrow> ('a \<Rightarrow> 'a \<Rightarrow> exn + int) \<Rightarrow> ('a \<Rightarrow> 'a \<Rightarrow> int) \<Rightarrow> bool" where
  "strictOrderOn S cmp f \<longleftrightarrow>
     (\<forall>a\<in>S. \<forall>b\<in>S. cmp a b = Inr (f a b)) \<and>
     (\<forall>a\<in>S. \<forall>b\<in>S. f a b = 0 \<longrightarrow> a = b) \<and>
     (\<forall>a\<in>S. \<forall>b\<in>S. f a b < 0 \<longleftrightarrow> 0 < f b a) \<and>
     (\<forall>a\<in>S. \<forall>b\<in>S. \<forall>c\<in>S. f a b < 0 \<longrightarrow> f b c < 0 \<longrightarrow> f a c < 0)"

definition typeKey :: "cnode \<Rightarrow> string" where
  "typeKey a = (case ctype a of Some (JStr s) \<Rightarrow> s | _ \<Rightarrow> [])"

section \<open>Edits of a document\<close>

text \<open>
  The edits that the properties of the fingerprint speak about. \<open>mapField k g\<close> changes
  the value of the property \<open>k\<close> of an object where it exists; \<open>setField k v\<close> assigns to
  the property \<open>k\<close> of an object, or deletes it when \<open>v\<close> is \<open>None\<close>. Neither touches a
  value that is not an object.
\<close>

fun mapField :: "string \<Rightarrow> (json \<Rightarrow> json) \<Rightarrow> json \<Rightarrow> json" where
  "mapField k g (JObj kvs) = JObj (map (\<lambda>p. if fst p = k then (k, g (snd p)) else p) kvs)"
| "mapField k g v = v"

fun setField :: "string \<Rightarrow> json option \<Rightarrow> json \<Rightarrow> json" where
  "setField k None (JObj kvs) = JObj (filter (\<lambda>p. fst p \<noteq> k) kvs)"
| "setField k (Some v) (JObj kvs) =
     JObj (if map_of kvs k \<noteq> None then map (\<lambda>p. if fst p = k then (k, v) else p) kvs
           else kvs @ [(k, v)])"
| "setField k v x = x"

fun mapElems :: "(json \<Rightarrow> json) \<Rightarrow> json \<Rightarrow> json" where
  "mapElems g (JArr vs) = JArr (map g vs)"
| "mapElems g v = v"

fun mapElemAt :: "nat \<Rightarrow> (json \<Rightarrow> json) \<Rightarrow> json \<Rightarrow> json" where
  "mapElemAt i g (JArr vs) = JArr (if i < length vs then vs[i := g (vs ! i)] else vs)"
| "mapElemAt i g v = v"

text \<open>
  Renaming the ids: every node id that is a string, and the source and the target of
  every edge, go through \<open>f\<close>.
\<close>

fun renameString :: "(string \<Rightarrow> string) \<Rightarrow> json \<Rightarrow> json" where
  "renameString f (JStr s) = JStr (f s)"
| "renameString f v = v"

definition renameNode :: "(string \<Rightarrow> string) \<Rightarrow> json \<Rightarrow> json" where
  "renameNode f node = mapField ''id'' (renameString f) node"

definition renameEdge :: "(string \<Rightarrow> string) \<Rightarrow> json \<Rightarrow> json" where
  "renameEdge f edge =
     mapField ''source'' (renameString f) (mapField ''target'' (renameString f) edge)"

definition renameIds :: "(string \<Rightarrow> string) \<Rightarrow> json \<Rightarrow> json" where
  "renameIds f content =
     mapField ''nodes'' (mapElems (renameNode f))
       (mapField ''edges'' (mapElems (renameEdge f)) content)"

text \<open>The strings that occur as the id of a node or as an end of an edge.\<close>

fun stringsOf :: "json option list \<Rightarrow> string list" where
  "stringsOf [] = []"
| "stringsOf (Some (JStr s) # vs) = s # stringsOf vs"
| "stringsOf (v # vs) = stringsOf vs"

definition idStrings :: "json \<Rightarrow> string list" where
  "idStrings content =
     stringsOf (map (\<lambda>n. get n ''id'') (elems (get content ''nodes''))
              @ map (\<lambda>e. get e ''source'') (elems (get content ''edges''))
              @ map (\<lambda>e. get e ''target'') (elems (get content ''edges'')))"

text \<open>
  A cosmetic edit assigns to, or deletes, one of the fields \<^verbatim>\<open>position\<close>, \<^verbatim>\<open>label\<close>,
  \<^verbatim>\<open>name\<close>, \<^verbatim>\<open>description\<close> of the node at an index: a field of the node itself, of
  its \<^verbatim>\<open>data\<close> or of its \<^verbatim>\<open>config\<close>.
\<close>

definition cosmeticFields :: "string list" where
  "cosmeticFields = [''position'', ''label'', ''name'', ''description'']"

datatype place = OfNode | OfData | OfConfig

datatype cosmeticEdit =
  CosmeticEdit (editIndex: nat) (editPlace: place) (editField: string) (editValue: "json option")

fun editAt :: "place \<Rightarrow> string \<Rightarrow> json option \<Rightarrow> json \<Rightarrow> json" where
  "editAt OfNode k v node = setField k v node"
| "editAt OfData k v node = mapField ''data'' (setField k v) node"
| "editAt OfConfig k v node = mapField ''config'' (setField k v) node"

definition applyEdit :: "cosmeticEdit \<Rightarrow> json \<Rightarrow> json" where
  "applyEdit e content =
     mapField ''nodes''
       (mapElemAt (editIndex e) (editAt (editPlace e) (editField e) (editValue e))) content"

definition applyEdits :: "cosmeticEdit list \<Rightarrow> json \<Rightarrow> json" where
  "applyEdits es content = foldl (\<lambda>c e. applyEdit e c) content es"

text \<open>
  A functional edit assigns to (or deletes) the \<^verbatim>\<open>type\<close> of the node at an index or a
  field of its \<^verbatim>\<open>data\<close>, inserts an edge at a position, or removes the edge at a
  position.
\<close>

fun insertElemAt :: "nat \<Rightarrow> json \<Rightarrow> json \<Rightarrow> json" where
  "insertElemAt j e (JArr vs) = JArr (take j vs @ e # drop j vs)"
| "insertElemAt j e v = v"

fun removeElemAt :: "nat \<Rightarrow> json \<Rightarrow> json" where
  "removeElemAt j (JArr vs) = JArr (take j vs @ drop (Suc j) vs)"
| "removeElemAt j v = v"

datatype functionalEdit =
    SetType nat "json option"
  | SetData nat string "json option"
  | AddEdge nat json
  | RemoveEdge nat

fun applyFunctional :: "functionalEdit \<Rightarrow> json \<Rightarrow> json" where
  "applyFunctional (SetType i t) content =
     mapField ''nodes'' (mapElemAt i (setField ''type'' t)) content"
| "applyFunctional (SetData i k v) content =
     mapField ''nodes'' (mapElemAt i (mapField ''data'' (setField k v))) content"
| "applyFunctional (AddEdge j e) content = mapField ''edges'' (insertElemAt j e) content"
| "applyFunctional (RemoveEdge j) content = mapField ''edges'' (removeElemAt j) content"

text \<open>
  The values that \<^verbatim>\<open>normalizeNodeData\<close> leaves out: \<^verbatim>\<open>undefined\<close>, null and the empty
  string.
\<close>

fun isEmptyValue :: "json option \<Rightarrow> bool" where
  "isEmptyValue None = True"
| "isEmptyValue (Some JNull) = True"
| "isEmptyValue (Some (JStr s)) = (s = [])"
| "isEmptyValue v = False"

text \<open>
  When a functional edit changes what the fingerprint is meant to be sensitive to:
  the module type that the validator resolves for the node becomes another one;
  a field of the node's \<^verbatim>\<open>data\<close> that is not an ignored key gets another value, and not
  an empty value for an empty one; an edge appears in the array of edges; an existing
  edge disappears. (The keys of an object are distinct; \<^verbatim>\<open>__proto__\<close> is never a
  property of the normalized data.)
\<close>

fun changes :: "functionalEdit \<Rightarrow> json \<Rightarrow> bool" where
  "changes (SetType i t) content =
     (i < length (elems (get content ''nodes''))
      \<and> moduleTypeOf (setField ''type'' t (elems (get content ''nodes'') ! i))
          \<noteq> moduleTypeOf (elems (get content ''nodes'') ! i))"
| "changes (SetData i k v) content =
     (i < length (elems (get content ''nodes''))
      \<and> k \<notin> set ignoreKeys \<and> k \<noteq> ''__proto__''
      \<and> (case get (elems (get content ''nodes'') ! i) ''data'' of
            Some (JObj kvs) \<Rightarrow>
              distinct (map fst kvs) \<and> map_of kvs k \<noteq> v
              \<and> (isEmptyValue (map_of kvs k) \<longrightarrow> \<not> isEmptyValue v)
          | _ \<Rightarrow> False))"
| "changes (AddEdge j e) content = isArray (get content ''edges'')"
| "changes (RemoveEdge j) content = (j < length (elems (get content ''edges'')))"

section \<open>The functions on a store\<close>

text \<open>
  To say that a call leaves the document as it is, the objects get addresses. A store
  is the list of the cells allocated so far. The document that a caller holds is a cell
  of the store; the arrays and objects that the code creates and then writes to are
  cells allocated during the call:
  \<^item> \<^verbatim>\<open>invalidTypes\<close>, created by \<^verbatim>\<open>[]\<close> and written by \<^verbatim>\<open>push\<close>;
  \<^item> \<^verbatim>\<open>normalized\<close>, created by \<^verbatim>\<open>{}\<close> and written by \<^verbatim>\<open>normalized[key] = value\<close>;
  \<^item> the two arrays that \<^verbatim>\<open>map\<close> returns, which \<^verbatim>\<open>sort\<close> sorts in place.
  These are all the assignments to a property or an element in the three functions. The
  other objects that they create (the sets, the object literals, the verdict) are never
  written after their creation and stay values. Each function below takes the store
  and returns its result with the store after the call; it computes with the functions
  of the previous sections on what it reads from the cells.
\<close>

type_synonym store = "json list"

definition storeAlloc :: "json \<Rightarrow> store \<Rightarrow> nat \<times> store" where
  "storeAlloc v st = (length st, st @ [v])"

definition storeWrite :: "nat \<Rightarrow> json \<Rightarrow> store \<Rightarrow> store" where
  "storeWrite a v st = st[a := v]"

text \<open>\<^verbatim>\<open>normalizeNodeData\<close>: the address of \<^verbatim>\<open>normalized\<close> and the store.\<close>

definition normalizeNodeDataS :: "json \<Rightarrow> store \<Rightarrow> nat \<times> store" where
  "normalizeNodeDataS data st =
     (let (normalized, st1) = storeAlloc (JObj []) st
      in (normalized,
          foldl (\<lambda>s entry.
                   storeWrite normalized
                     (JObj (normalizeStep (objectEntries (s ! normalized)) entry)) s)
                st1 (objectEntries data)))"

text \<open>The callback of \<^verbatim>\<open>content.nodes.map\<close>, and the loop of \<^verbatim>\<open>map\<close> over the nodes.\<close>

definition canonNodeS :: "json \<Rightarrow> store \<Rightarrow> (exn + cnode) \<times> store" where
  "canonNodeS node st =
     (if node = JNull then (Inl TypeError, st)
      else
        (let (normalized, st1) =
               normalizeNodeDataS
                 (orElse (get node ''data'') (orElse (get node ''config'') (JObj []))) st
         in (Inr (CNode (get node ''type'') (st1 ! normalized)), st1)))"

fun mapNodesS :: "json list \<Rightarrow> store \<Rightarrow> (exn + cnode list) \<times> store" where
  "mapNodesS [] st = (Inr [], st)"
| "mapNodesS (node # rest) st =
     (case canonNodeS node st of
        (Inl e, st1) \<Rightarrow> (Inl e, st1)
      | (Inr y, st1) \<Rightarrow>
          (case mapNodesS rest st1 of
             (Inl e, st2) \<Rightarrow> (Inl e, st2)
           | (Inr ys, st2) \<Rightarrow> (Inr (y # ys), st2)))"

text \<open>
  \<^verbatim>\<open>xs.map(f).sort(cmp)\<close>: the array that \<^verbatim>\<open>map\<close> returns is a new cell, and the sort
  writes its result to this cell. (When the comparison function throws, the order of
  the elements in the cell is up to the host; the cell is left as it was.)
\<close>

definition sortCellS ::
    "('a \<Rightarrow> json) \<Rightarrow> ('a \<Rightarrow> 'a \<Rightarrow> exn + int) \<Rightarrow> 'a list \<Rightarrow> store \<Rightarrow> (exn + 'a list) \<times> store" where
  "sortCellS toJson cmp mapped st =
     (let (array, st1) = storeAlloc (JArr (map toJson mapped)) st
      in case sortBy cmp mapped of
           Inl e \<Rightarrow> (Inl e, st1)
         | Inr ordered \<Rightarrow> (Inr ordered, storeWrite array (JArr (map toJson ordered)) st1))"

definition normalizeWorkflowForHashS ::
    "(string \<Rightarrow> string \<Rightarrow> int) \<Rightarrow> json \<Rightarrow> store \<Rightarrow> (exn + canon) \<times> store" where
  "normalizeWorkflowForHashS lc content st =
     (if content = JNull then (Inl TypeError, st)
      else
        (case arrayOrEmpty (get content ''nodes'') of
           Inl e \<Rightarrow> (Inl e, st)
         | Inr ns \<Rightarrow>
            (case mapNodesS ns st of
               (Inl e, st1) \<Rightarrow> (Inl e, st1)
             | (Inr mapped, st1) \<Rightarrow>
                (case sortCellS cnodeJson (compareNodes lc) mapped st1 of
                   (Inl e, st2) \<Rightarrow> (Inl e, st2)
                 | (Inr nodes, st2) \<Rightarrow>
                    (case bindE (arrayOrEmpty (get content ''edges''))
                            (mapE (canonEdge (get content ''nodes''))) of
                       Inl e \<Rightarrow> (Inl e, st2)
                     | Inr mappedEdges \<Rightarrow>
                        (case sortCellS cedgeJson (compareEdges lc) mappedEdges st2 of
                           (Inl e, st3) \<Rightarrow> (Inl e, st3)
                         | (Inr edges, st3) \<Rightarrow> (Inr (Canon nodes edges), st3)))))))"

text \<open>\<^verbatim>\<open>calculateWorkflowHash\<close> of the document in the cell \<open>doc\<close>.\<close>

definition calculateWorkflowHashS ::
    "(string \<Rightarrow> string \<Rightarrow> int) \<Rightarrow> (string \<Rightarrow> 'h) \<Rightarrow> nat \<Rightarrow> store \<Rightarrow> (exn + 'h) \<times> store" where
  "calculateWorkflowHashS lc sha doc st =
     (case normalizeWorkflowForHashS lc (st ! doc) st of
        (Inl e, st1) \<Rightarrow> (Inl e, st1)
      | (Inr normalizedContent, st1) \<Rightarrow> (Inr (sha (stringify (canonJson normalizedContent))), st1))"

text \<open>
  \<^verbatim>\<open>validateWorkflowContent\<close> of the document in the cell \<open>doc\<close>. The loop over the nodes
  keeps \<^verbatim>\<open>validNodeCount\<close> in a variable and \<^verbatim>\<open>invalidTypes\<close> in the cell
  \<open>invalidTypes\<close>, to which \<^verbatim>\<open>push\<close> writes.
\<close>

fun checkNodesS ::
    "nat \<Rightarrow> nat \<Rightarrow> json list \<Rightarrow> nat \<Rightarrow> store \<Rightarrow> (verr + nat) \<times> store" where
  "checkNodesS invalidTypes i [] validNodeCount st = (Inr validNodeCount, st)"
| "checkNodesS invalidTypes i (node # rest) validNodeCount st =
     (case checkNode i node (validNodeCount, elems (Some (st ! invalidTypes))) of
        Inl e \<Rightarrow> (Inl e, st)
      | Inr st' \<Rightarrow>
          checkNodesS invalidTypes (i + 1) rest (fst st')
            (storeWrite invalidTypes (JArr (snd st')) st))"

definition validateWorkflowContentS :: "nat \<Rightarrow> store \<Rightarrow> (exn + verdict) \<times> store" where
  "validateWorkflowContentS doc st =
     (let c = Some (st ! doc); content = st ! doc in
      if \<not> truthy c \<or> typeof c \<noteq> TObject then (Inr (Invalid InvalidJson), st)
      else if isArray c then (Inr (Invalid ShouldBeObject), st)
      else if get content ''nodes'' = None then (Inr (Invalid MissingNodes), st)
      else if get content ''edges'' = None then (Inr (Invalid MissingEdges), st)
      else if \<not> isArray (get content ''nodes'') then (Inr (Invalid NodesNotArray), st)
      else if \<not> isArray (get content ''edges'') then (Inr (Invalid EdgesNotArray), st)
      else if length (elems (get content ''nodes'')) = 0 then (Inr (Invalid NoNodes), st)
      else if length (elems (get content ''nodes'')) > 500 then (Inr (Invalid TooManyNodes), st)
      else
        (let (invalidTypes, st1) = storeAlloc (JArr []) st
         in case checkNodesS invalidTypes 0 (elems (get content ''nodes'')) 0 st1 of
              (Inl e, st2) \<Rightarrow> (Inr (Invalid e), st2)
            | (Inr validNodeCount, st2) \<Rightarrow>
                (afterNodes content (validNodeCount, elems (Some (st2 ! invalidTypes))), st2)))"

text \<open>\<^verbatim>\<open>sanitizeWorkflow\<close> returns the reference it was given.\<close>

definition sanitizeWorkflowS :: "nat \<Rightarrow> store \<Rightarrow> nat \<times> store" where
  "sanitizeWorkflowS doc st = (doc, st)"

text \<open>A sequence of calls on the document in the cell \<open>doc\<close>.\<close>

datatype call = Validate | Sanitize | Hash

datatype 'h outcome = Verdict "exn + verdict" | Content nat | Digest "exn + 'h"

fun runCall ::
    "(string \<Rightarrow> string \<Rightarrow> int) \<Rightarrow> (string \<Rightarrow> 'h) \<Rightarrow> nat \<Rightarrow> call \<Rightarrow> store \<Rightarrow> 'h outcome \<times> store" where
  "runCall lc sha doc Validate st =
     (case validateWorkflowContentS doc st of (r, st') \<Rightarrow> (Verdict r, st'))"
| "runCall lc sha doc Sanitize st =
     (case sanitizeWorkflowS doc st of (r, st') \<Rightarrow> (Content r, st'))"
| "runCall lc sha doc Hash st =
     (case calculateWorkflowHashS lc sha doc st of (r, st') \<Rightarrow> (Digest r, st'))"

fun runCalls ::
    "(string \<Rightarrow> string \<Rightarrow> int) \<Rightarrow> (string \<Rightarrow> 'h) \<Rightarrow> nat \<Rightarrow> call list \<Rightarrow> store
       \<Rightarrow> 'h outcome list \<times> store" where
  "runCalls lc sha doc [] st = ([], st)"
| "runCalls lc sha doc (c # cs) st =
     (case runCall lc sha doc c st of
        (r, st1) \<Rightarrow> (case runCalls lc sha doc cs st1 of (rs, st2) \<Rightarrow> (r # rs, st2)))"

text \<open>What the functions of the previous sections return for a call.\<close>

fun expected ::
    "(string \<Rightarrow> string \<Rightarrow> int) \<Rightarrow> (string \<Rightarrow> 'h) \<Rightarrow> nat \<Rightarrow> json \<Rightarrow> call \<Rightarrow> 'h outcome" where
  "expected lc sha doc content Validate = Verdict (validateWorkflowContent (Some content))"
| "expected lc sha doc content Sanitize = Content doc"
| "expected lc sha doc content Hash = Digest (calculateWorkflowHash lc sha content)"

section \<open>Example documents\<close>

text \<open>
  A known node next to a node whose \<^verbatim>\<open>data.moduleType\<close> is the object
  \<^verbatim>\<open>{"toString": 1}\<close>.
\<close>

definition throwingDocument :: json where
  "throwingDocument =
     JObj [(''nodes'', JArr
             [JObj [(''id'', JStr ''a''), (''type'', JStr ''open_page'')],
              JObj [(''id'', JStr ''b''), (''type'', JStr ''moduleNode''),
                    (''data'', JObj [(''moduleType'', JObj [(''toString'', JNum 1)])])]]),
           (''edges'', JArr [])]"

text \<open>Two nodes with the id \<^verbatim>\<open>n1\<close>, and an edge from \<^verbatim>\<open>n1\<close> to \<^verbatim>\<open>n1\<close>.\<close>

definition duplicateIdDocument :: json where
  "duplicateIdDocument =
     JObj [(''nodes'', JArr
             [JObj [(''id'', JStr ''n1''), (''type'', JStr ''open_page'')],
              JObj [(''id'', JStr ''n1''), (''type'', JStr ''click_element'')]]),
           (''edges'', JArr [JObj [(''source'', JStr ''n1''), (''target'', JStr ''n1'')]])]"

text \<open>A known node and a node of the unknown kind \<^verbatim>\<open>foo\<close>.\<close>

definition unknownKindDocument :: json where
  "unknownKindDocument =
     JObj [(''nodes'', JArr
             [JObj [(''id'', JStr ''a''), (''type'', JStr ''open_page'')],
              JObj [(''id'', JStr ''b''), (''type'', JStr ''foo'')]]),
           (''edges'', JArr [])]"

text \<open>A single node of the wrapper kind \<^verbatim>\<open>groupNode\<close>, without \<^verbatim>\<open>data.moduleType\<close>.\<close>

definition wrapperOnlyDocument :: json where
  "wrapperOnlyDocument =
     JObj [(''nodes'', JArr [JObj [(''id'', JStr ''g1''), (''type'', JStr ''groupNode'')]]),
           (''edges'', JArr [])]"

text \<open>The same node with a string as its \<^verbatim>\<open>position\<close>.\<close>

definition wrapperBadPositionDocument :: json where
  "wrapperBadPositionDocument =
     JObj [(''nodes'', JArr [JObj [(''id'', JStr ''g1''), (''type'', JStr ''groupNode''),
                                   (''position'', JStr ''top'')]]),
           (''edges'', JArr [])]"

text \<open>
  The node of the specification's scenario A, documents with \<open>n\<close> copies of it, and
  documents with one node whose \<^verbatim>\<open>data\<close> holds a string of \<open>k\<close> letters.
\<close>

definition sampleNode :: json where
  "sampleNode =
     JObj [(''id'', JStr ''n1''), (''type'', JStr ''open_page''),
           (''data'', JObj [(''url'', JStr ''https://x'')])]"

definition manyNodes :: "nat \<Rightarrow> json" where
  "manyNodes n = JObj [(''nodes'', JArr (replicate n sampleNode)), (''edges'', JArr [])]"

definition bigData :: "nat \<Rightarrow> json" where
  "bigData k = JObj [(''text'', JStr (replicate k CHR ''x''))]"

definition bigDataDocument :: "nat \<Rightarrow> json" where
  "bigDataDocument k =
     JObj [(''nodes'', JArr [JObj [(''id'', JStr ''n1''), (''type'', JStr ''input_text''),
                                   (''data'', bigData k)]]),
           (''edges'', JArr [])]"

text \<open>
  Two wrapped nodes, \<^verbatim>\<open>open_page\<close> and \<^verbatim>\<open>click_element\<close> under the wrapper kind
  \<^verbatim>\<open>moduleNode\<close>, and an edge from the first to the second.
\<close>

definition wrappedDocument :: json where
  "wrappedDocument =
     JObj [(''nodes'', JArr
             [JObj [(''id'', JStr ''n1''), (''type'', JStr ''moduleNode''),
                    (''data'', JObj [(''moduleType'', JStr ''open_page'')])],
              JObj [(''id'', JStr ''n2''), (''type'', JStr ''moduleNode''),
                    (''data'', JObj [(''moduleType'', JStr ''click_element'')])]]),
           (''edges'', JArr [JObj [(''source'', JStr ''n1''), (''target'', JStr ''n2'')]])]"

text \<open>The document \<open>wrappedDocument\<close> with its edge turned round.\<close>

definition wrappedRewired :: json where
  "wrappedRewired =
     JObj [(''nodes'', JArr
             [JObj [(''id'', JStr ''n1''), (''type'', JStr ''moduleNode''),
                    (''data'', JObj [(''moduleType'', JStr ''open_page'')])],
              JObj [(''id'', JStr ''n2''), (''type'', JStr ''moduleNode''),
                    (''data'', JObj [(''moduleType'', JStr ''click_element'')])]]),
           (''edges'', JArr [JObj [(''source'', JStr ''n2''), (''target'', JStr ''n1'')]])]"

text \<open>
  A node whose \<^verbatim>\<open>type\<close> is the number 5 and whose module type is \<^verbatim>\<open>data.moduleType\<close>,
  next to a plain node; two documents with these nodes in the two possible orders.
\<close>

definition numericTypeNode :: json where
  "numericTypeNode =
     JObj [(''id'', JStr ''a''), (''type'', JNum 5),
           (''data'', JObj [(''moduleType'', JStr ''open_page'')])]"

definition plainNode :: json where
  "plainNode = JObj [(''id'', JStr ''b''), (''type'', JStr ''click_element'')]"

definition numericFirstDocument :: json where
  "numericFirstDocument =
     JObj [(''nodes'', JArr [numericTypeNode, plainNode]), (''edges'', JArr [])]"

definition numericLastDocument :: json where
  "numericLastDocument =
     JObj [(''nodes'', JArr [plainNode, numericTypeNode]), (''edges'', JArr [])]"

text \<open>
  The document of scenario A with an edge and cosmetic fields, for the cosmetic edits:
  the renaming \<open>freshId\<close> puts \<^verbatim>\<open>x-\<close> before an id.
\<close>

definition labelledDocument :: json where
  "labelledDocument =
     JObj [(''nodes'', JArr
             [JObj [(''id'', JStr ''n1''), (''type'', JStr ''open_page''),
                    (''position'', JObj [(''x'', JNum 10), (''y'', JNum 20)]),
                    (''data'', JObj [(''label'', JStr ''Open''), (''url'', JStr ''https://x'')])],
              JObj [(''id'', JStr ''n2''), (''type'', JStr ''click_element''),
                    (''data'', JObj [(''selector'', JStr ''#go'')])]]),
           (''edges'', JArr [JObj [(''source'', JStr ''n1''), (''target'', JStr ''n2'')]])]"

definition freshId :: "string \<Rightarrow> string" where
  "freshId s = ''x-'' @ s"

definition labelEdits :: "cosmeticEdit list" where
  "labelEdits =
     [CosmeticEdit 0 OfData ''label'' (Some (JStr ''Start here'')),
      CosmeticEdit 0 OfNode ''position'' None,
      CosmeticEdit 1 OfData ''description'' (Some (JStr ''the button''))]"

text \<open>A node whose \<^verbatim>\<open>data.url\<close> is the empty string.\<close>

definition emptyUrlDocument :: json where
  "emptyUrlDocument =
     JObj [(''nodes'', JArr
             [JObj [(''id'', JStr ''n1''), (''type'', JStr ''open_page''),
                    (''data'', JObj [(''url'', JStr [])])]]),
           (''edges'', JArr [])]"

text \<open>
  Two nodes with the module type \<^verbatim>\<open>open_page\<close> in \<^verbatim>\<open>data.moduleType\<close>: one has the
  empty string as its \<^verbatim>\<open>type\<close>, the other has no \<^verbatim>\<open>type\<close>. Two documents with these
  nodes in the two possible orders.
\<close>

definition emptyTypeNode :: json where
  "emptyTypeNode =
     JObj [(''id'', JStr ''a''), (''type'', JStr []),
           (''data'', JObj [(''moduleType'', JStr ''open_page'')])]"

definition untypedNode :: json where
  "untypedNode =
     JObj [(''id'', JStr ''b''), (''data'', JObj [(''moduleType'', JStr ''open_page'')])]"

definition emptyTypeFirstDocument :: json where
  "emptyTypeFirstDocument =
     JObj [(''nodes'', JArr [emptyTypeNode, untypedNode]), (''edges'', JArr [])]"

definition emptyTypeLastDocument :: json where
  "emptyTypeLastDocument =
     JObj [(''nodes'', JArr [untypedNode, emptyTypeNode]), (''edges'', JArr [])]"

text \<open>The document \<open>wrappedDocument\<close> with its two nodes in the other order.\<close>

definition wrappedReversed :: json where
  "wrappedReversed =
     JObj [(''nodes'', JArr
             [JObj [(''id'', JStr ''n2''), (''type'', JStr ''moduleNode''),
                    (''data'', JObj [(''moduleType'', JStr ''click_element'')])],
              JObj [(''id'', JStr ''n1''), (''type'', JStr ''moduleNode''),
                    (''data'', JObj [(''moduleType'', JStr ''open_page'')])]]),
           (''edges'', JArr [JObj [(''source'', JStr ''n1''), (''target'', JStr ''n2'')]])]"

section \<open>Properties of the validator\<close>

subsection \<open>What a completed node loop and a pass verdict imply\<close>

lemma wrapper_not_valid: "has validReactFlowTypes m \<Longrightarrow> \<not> has validModuleTypes m"
  by (cases "(validReactFlowTypes, m)" rule: has.cases)
     (auto simp: validReactFlowTypes_def validModuleTypes_def)

lemma checkNode_Inr:
  assumes "checkNode i node st = Inr st'"
  shows "st' = countType (moduleTypeOf node) st"
    and "truthy (moduleTypeOf node)"
    and "truthy (get node ''id'')" and "typeof (get node ''id'') = TString"
    and "length (stringify (orElse (get node ''data'') (JObj []))) \<le> 50000"
  using assms by (auto simp: checkNode_def Let_def split: if_splits)

lemma countType_snd_Nil:
  "truthy m \<Longrightarrow> snd (countType m st) = [] \<longleftrightarrow>
     snd st = [] \<and> (has validModuleTypes m \<or> has validReactFlowTypes m)"
  by (cases m) (auto simp: countType_def)

lemma checkNodes_snd_Nil:
  "checkNodes i ns st = Inr st' \<Longrightarrow> snd st' = [] \<Longrightarrow>
     snd st = [] \<and> (\<forall>n\<in>set ns. has validModuleTypes (moduleTypeOf n) \<or> has validReactFlowTypes (moduleTypeOf n))"
proof (induction ns arbitrary: i st)
  case Nil
  then show ?case by simp
next
  case (Cons n ns)
  from Cons.prems(1) obtain st1 where c1: "checkNode i n st = Inr st1"
    and rest: "checkNodes (i + 1) ns st1 = Inr st'"
    by (auto split: sum.splits)
  from Cons.IH[OF rest Cons.prems(2)] have a: "snd st1 = []"
    and b: "\<forall>n\<in>set ns. has validModuleTypes (moduleTypeOf n) \<or> has validReactFlowTypes (moduleTypeOf n)"
    by auto
  from checkNode_Inr(1,2)[OF c1] a countType_snd_Nil[of "moduleTypeOf n" st]
  show ?case using b by auto
qed

lemma checkNodes_wrappers:
  "\<forall>n\<in>set ns. has validReactFlowTypes (moduleTypeOf n) \<Longrightarrow> checkNodes i ns st = Inr st' \<Longrightarrow> st' = st"
proof (induction ns arbitrary: i st)
  case Nil
  then show ?case by simp
next
  case (Cons n ns)
  from Cons.prems(2) obtain st1 where c1: "checkNode i n st = Inr st1"
    and rest: "checkNodes (i + 1) ns st1 = Inr st'"
    by (auto split: sum.splits)
  have w: "has validReactFlowTypes (moduleTypeOf n)" using Cons.prems(1) by simp
  have "st1 = st" using checkNode_Inr(1)[OF c1] w wrapper_not_valid[OF w]
    by (simp add: countType_def)
  with Cons.IH[OF _ rest] Cons.prems(1) show ?case by simp
qed

lemma afterNodes_no_valid: "fst st = 0 \<Longrightarrow> afterNodes c st = Inr (Invalid NoValidModuleType)"
  by (simp add: afterNodes_def)

lemma validate_Valid_cases:
  assumes "validateWorkflowContent (Some c) = Inr (Valid n)"
  obtains st where "isArray (get c ''nodes'')" "isArray (get c ''edges'')"
    "0 < length (elems (get c ''nodes''))" "length (elems (get c ''nodes'')) \<le> 500"
    "checkNodes 0 (elems (get c ''nodes'')) (0, []) = Inr st"
    "afterNodes c st = Inr (Valid n)"
  using assms
  by (auto simp: validateWorkflowContent_def split: if_splits sum.splits)

lemma afterNodes_Valid:
  assumes "afterNodes c st = Inr (Valid n)"
  shows "fst st \<noteq> 0" "snd st = []" "n = length (elems (get c ''nodes''))"
    "checkEdges (map (\<lambda>n. get n ''id'') (elems (get c ''nodes''))) 0 (elems (get c ''edges'')) = None"
    "length (stringify c) \<le> 500000"
  using assms
  by (auto simp: afterNodes_def Let_def split: if_splits sum.splits option.splits)

lemmas eval_defs = validateWorkflowContent_def checkNode_def afterNodes_def moduleTypeOf_def
  validModuleTypes_def validReactFlowTypes_def countType_def quoteJSONString_def escapeChar_def
  checkEdge_def checkVariable_def intToString_def digit_def hexDigit_def natToString.simps

lemma checkEdge_None:
  assumes "checkEdge ids i edge = None"
  shows "truthy (get edge ''source'') \<and> typeof (get edge ''source'') = TString
       \<and> get edge ''source'' \<in> set ids
       \<and> truthy (get edge ''target'') \<and> typeof (get edge ''target'') = TString
       \<and> get edge ''target'' \<in> set ids"
proof -
  have str: "strictEq x y \<Longrightarrow> typeof y = TString \<Longrightarrow> x = y" for x y
    by (cases "(x, y)" rule: strictEq.cases) auto
  from assms show ?thesis
    by (auto simp: checkEdge_def list_ex_iff split: if_splits dest: str)
qed

lemma checkEdges_None:
  "checkEdges ids i es = None \<Longrightarrow> edge \<in> set es \<Longrightarrow>
     truthy (get edge ''source'') \<and> typeof (get edge ''source'') = TString
   \<and> get edge ''source'' \<in> set ids
   \<and> truthy (get edge ''target'') \<and> typeof (get edge ''target'') = TString
   \<and> get edge ''target'' \<in> set ids"
proof (induction es arbitrary: i)
  case Nil
  then show ?case by simp
next
  case (Cons e es)
  from Cons.prems(1) have h: "checkEdge ids i e = None" and t: "checkEdges ids (i + 1) es = None"
    by (auto split: option.splits)
  show ?case
  proof (cases "edge = e")
    case True
    with checkEdge_None[OF h] show ?thesis by simp
  next
    case False
    with Cons.prems(2) have "edge \<in> set es" by simp
    from Cons.IH[OF t this] show ?thesis .
  qed
qed

lemma checkNodes_ids:
  "checkNodes i ns st = Inr st' \<Longrightarrow> n \<in> set ns \<Longrightarrow>
     truthy (get n ''id'') \<and> typeof (get n ''id'') = TString"
proof (induction ns arbitrary: i st)
  case Nil
  then show ?case by simp
next
  case (Cons m ns)
  from Cons.prems(1) obtain st1 where c1: "checkNode i m st = Inr st1"
    and rest: "checkNodes (i + 1) ns st1 = Inr st'"
    by (auto split: sum.splits)
  show ?case
  proof (cases "n = m")
    case True
    with checkNode_Inr(3,4)[OF c1] show ?thesis by simp
  next
    case False
    with Cons.prems(2) have "n \<in> set ns" by simp
    from Cons.IH[OF rest this] show ?thesis .
  qed
qed

subsection \<open>Totality\<close>

text \<open>
  C7 (the validator returns a verdict for every input and never throws). The code
  throws on \<open>throwingDocument\<close>: the node loop completes with one valid node and the
  unsupported module type \<^verbatim>\<open>{"toString": 1}\<close>, and building the message calls
  \<^verbatim>\<open>join(', ')\<close>, which cannot convert that object to a string.
\<close>

theorem validate_throws: "validateWorkflowContent (Some throwingDocument) = Inl TypeError"
  by (simp add: throwingDocument_def eval_defs)

theorem validate_throws_witness:
  "validateWorkflowContent (Some throwingDocument)
     \<noteq> Inr (Invalid (UnsupportedTypes ''[object Object]''))"
  using validate_throws by simp

subsection \<open>Node ids\<close>

text \<open>
  C8 (a document with two nodes of the same id is rejected). The code accepts
  \<open>duplicateIdDocument\<close>, whose two nodes both have the id \<^verbatim>\<open>n1\<close>.
\<close>

theorem duplicate_ids_accepted:
  "map (\<lambda>n. get n ''id'') (elems (get duplicateIdDocument ''nodes''))
     = [Some (JStr ''n1''), Some (JStr ''n1'')]
   \<and> validateWorkflowContent (Some duplicateIdDocument) = Inr (Valid 2)"
  by (simp add: duplicateIdDocument_def eval_defs)

text \<open>
  C8, amended: the validator does not compare node ids with each other. What a pass
  verdict guarantees about ids is that the id of every node is a non-empty string and
  that the source and the target of every edge are the id of some node.
\<close>

theorem ids_checked_not_unique:
  assumes "validateWorkflowContent (Some c) = Inr (Valid n)"
  shows "list_all (\<lambda>node. truthy (get node ''id'') \<and> typeof (get node ''id'') = TString)
           (elems (get c ''nodes''))
       \<and> list_all (\<lambda>edge.
            get edge ''source'' \<in> set (map (\<lambda>n. get n ''id'') (elems (get c ''nodes'')))
          \<and> get edge ''target'' \<in> set (map (\<lambda>n. get n ''id'') (elems (get c ''nodes''))))
           (elems (get c ''edges''))"
proof -
  from assms obtain st where
    nodes: "checkNodes 0 (elems (get c ''nodes'')) (0, []) = Inr st"
    and after: "afterNodes c st = Inr (Valid n)"
    by (rule validate_Valid_cases)
  from afterNodes_Valid(4)[OF after] checkEdges_None checkNodes_ids[OF nodes]
  show ?thesis unfolding list_all_iff by blast
qed

theorem ids_checked_not_unique_witness:
  "validateWorkflowContent (Some duplicateIdDocument) = Inr (Valid 2)
   \<and> list_all (\<lambda>node. truthy (get node ''id'') \<and> typeof (get node ''id'') = TString)
        (elems (get duplicateIdDocument ''nodes''))
   \<and> list_all (\<lambda>edge.
         get edge ''source''
           \<in> set (map (\<lambda>n. get n ''id'') (elems (get duplicateIdDocument ''nodes'')))
       \<and> get edge ''target''
           \<in> set (map (\<lambda>n. get n ''id'') (elems (get duplicateIdDocument ''nodes''))))
        (elems (get duplicateIdDocument ''edges''))"
proof -
  have v: "validateWorkflowContent (Some duplicateIdDocument) = Inr (Valid 2)"
    by (simp add: duplicateIdDocument_def eval_defs)
  from v ids_checked_not_unique[OF v] show ?thesis by simp
qed

subsection \<open>Unknown module types\<close>

text \<open>
  C2 (a document with a known node and at most three distinct unknown kinds gets a
  pass verdict). The code rejects \<open>unknownKindDocument\<close>: its node loop completes with one
  valid node and the single unknown kind \<^verbatim>\<open>foo\<close>, and the verdict is the error that
  lists the unsupported module types.
\<close>

theorem unknown_kind_rejected:
  "checkNodes 0 (elems (get unknownKindDocument ''nodes'')) (0, []) = Inr (1, [JStr ''foo''])
   \<and> validateWorkflowContent (Some unknownKindDocument) = Inr (Invalid (UnsupportedTypes ''foo''))"
  by (simp add: unknownKindDocument_def eval_defs)

text \<open>
  C2, amended: unknown kinds are never tolerated. Whenever the verdict is a pass, the
  module type of every node is in the known vocabulary or is a wrapper kind; so a
  document with a node of an unknown kind does not get a pass verdict, however few the
  distinct unknown kinds are.
\<close>

theorem unknown_kinds_never_tolerated:
  assumes "validateWorkflowContent (Some c) = Inr (Valid n)"
  shows "list_all (\<lambda>node. has validModuleTypes (moduleTypeOf node)
                          \<or> has validReactFlowTypes (moduleTypeOf node))
           (elems (get c ''nodes''))"
proof -
  from assms obtain st where
    nodes: "checkNodes 0 (elems (get c ''nodes'')) (0, []) = Inr st"
    and after: "afterNodes c st = Inr (Valid n)"
    by (rule validate_Valid_cases)
  from checkNodes_snd_Nil[OF nodes afterNodes_Valid(2)[OF after]]
  show ?thesis by (simp add: list_all_iff)
qed

theorem unknown_kinds_never_tolerated_witness:
  "validateWorkflowContent (Some (manyNodes 1)) = Inr (Valid 1)
   \<and> list_all (\<lambda>node. has validModuleTypes (moduleTypeOf node)
                       \<or> has validReactFlowTypes (moduleTypeOf node))
        (elems (get (manyNodes 1) ''nodes''))"
proof -
  have v: "validateWorkflowContent (Some (manyNodes 1)) = Inr (Valid 1)"
    by (simp add: manyNodes_def sampleNode_def eval_defs)
  from v unknown_kinds_never_tolerated[OF v] show ?thesis by simp
qed

subsection \<open>Documents of wrapper kinds only\<close>

text \<open>
  C10 (a document in which the module type of every node is a wrapper kind is rejected
  with the error that no valid module type was found). The checks of a node come
  before the count of the valid nodes is looked at: in \<open>wrapperBadPositionDocument\<close>
  the only node has the wrapper kind \<^verbatim>\<open>groupNode\<close> and a string as its \<^verbatim>\<open>position\<close>, and
  the error is the one about the position.
\<close>

theorem wrapper_only_other_error:
  "list_all (\<lambda>node. has validReactFlowTypes (moduleTypeOf node))
      (elems (get wrapperBadPositionDocument ''nodes''))
   \<and> validateWorkflowContent (Some wrapperBadPositionDocument) = Inr (Invalid (NodePosition ''g1''))"
  by (simp add: wrapperBadPositionDocument_def eval_defs)

text \<open>
  C10, amended. A document in which the module type of every node is a wrapper kind
  never gets a pass verdict. When it gets to the end of the node loop (the fields
  \<^verbatim>\<open>nodes\<close> and \<^verbatim>\<open>edges\<close> are arrays, there are between 1 and 500 nodes, no node fails
  a check of its own, and the data of no node are nested deeper than 100 levels, which
  is within the reach of the host's \<^verbatim>\<open>JSON.stringify\<close>), the counters are untouched,
  \<^verbatim>\<open>validNodeCount\<close> is zero and the error is \<open>NoValidModuleType\<close>.
\<close>

theorem wrapper_only_rejected:
  assumes "list_all (\<lambda>node. has validReactFlowTypes (moduleTypeOf node)) (elems (get c ''nodes''))"
  shows "(\<forall>n. validateWorkflowContent (Some c) \<noteq> Inr (Valid n))
       \<and> (\<forall>st. isArray (get c ''nodes'') \<and> isArray (get c ''edges'')
              \<and> 0 < length (elems (get c ''nodes'')) \<and> length (elems (get c ''nodes'')) \<le> 500
              \<and> list_all (\<lambda>node. depth (orElse (get node ''data'') (JObj [])) \<le> 100)
                   (elems (get c ''nodes''))
              \<and> checkNodes 0 (elems (get c ''nodes'')) (0, []) = Inr st
            \<longrightarrow> validateWorkflowContent (Some c) = Inr (Invalid NoValidModuleType))"
proof -
  have loop: "afterNodes c st = Inr (Invalid NoValidModuleType)"
    if "checkNodes 0 (elems (get c ''nodes'')) (0, []) = Inr st" for st
  proof -
    from assms that have "st = (0, [])"
      using checkNodes_wrappers[of "elems (get c ''nodes'')" 0 "(0, [])" st]
      by (simp add: list_all_iff)
    then show ?thesis by (simp add: afterNodes_no_valid)
  qed
  have arr: "isArray (get c ''nodes'') \<Longrightarrow> \<exists>kvs. c = JObj kvs"
    by (cases c) auto
  show ?thesis
  proof (intro conjI allI impI)
    fix n
    show "validateWorkflowContent (Some c) \<noteq> Inr (Valid n)"
    proof
      assume "validateWorkflowContent (Some c) = Inr (Valid n)"
      then obtain st where "checkNodes 0 (elems (get c ''nodes'')) (0, []) = Inr st"
        "afterNodes c st = Inr (Valid n)"
        by (rule validate_Valid_cases)
      with loop[of st] show False by simp
    qed
  next
    fix st
    assume h: "isArray (get c ''nodes'') \<and> isArray (get c ''edges'')
              \<and> 0 < length (elems (get c ''nodes'')) \<and> length (elems (get c ''nodes'')) \<le> 500
              \<and> list_all (\<lambda>node. depth (orElse (get node ''data'') (JObj [])) \<le> 100)
                   (elems (get c ''nodes''))
              \<and> checkNodes 0 (elems (get c ''nodes'')) (0, []) = Inr st"
    then obtain kvs where c: "c = JObj kvs" using arr by blast
    have isArr: "isArray v \<Longrightarrow> v \<noteq> None" for v
      by (cases v rule: isArray.cases) auto
    from h have n: "get c ''nodes'' \<noteq> None" "get c ''edges'' \<noteq> None"
      by (auto simp del: get.simps dest: isArr)
    from h n loop[of st] show "validateWorkflowContent (Some c) = Inr (Invalid NoValidModuleType)"
      by (simp add: validateWorkflowContent_def c del: get.simps)
  qed
qed

theorem wrapper_only_rejected_witness:
  "list_all (\<lambda>node. has validReactFlowTypes (moduleTypeOf node))
      (elems (get wrapperOnlyDocument ''nodes''))
   \<and> list_all (\<lambda>node. depth (orElse (get node ''data'') (JObj [])) \<le> 100)
        (elems (get wrapperOnlyDocument ''nodes''))
   \<and> checkNodes 0 (elems (get wrapperOnlyDocument ''nodes'')) (0, []) = Inr (0, [])
   \<and> validateWorkflowContent (Some wrapperOnlyDocument) = Inr (Invalid NoValidModuleType)"
proof -
  have a: "list_all (\<lambda>node. has validReactFlowTypes (moduleTypeOf node))
      (elems (get wrapperOnlyDocument ''nodes''))"
    by (simp add: wrapperOnlyDocument_def eval_defs)
  have b: "checkNodes 0 (elems (get wrapperOnlyDocument ''nodes'')) (0, []) = Inr (0, [])"
    by (simp add: wrapperOnlyDocument_def eval_defs)
  have d: "list_all (\<lambda>node. depth (orElse (get node ''data'') (JObj [])) \<le> 100)
        (elems (get wrapperOnlyDocument ''nodes''))"
    by (simp add: wrapperOnlyDocument_def)
  have c: "isArray (get wrapperOnlyDocument ''nodes'') \<and> isArray (get wrapperOnlyDocument ''edges'')
     \<and> 0 < length (elems (get wrapperOnlyDocument ''nodes''))
     \<and> length (elems (get wrapperOnlyDocument ''nodes'')) \<le> 500"
    by (simp add: wrapperOnlyDocument_def)
  from wrapper_only_rejected[OF a] b c d
  have "validateWorkflowContent (Some wrapperOnlyDocument) = Inr (Invalid NoValidModuleType)"
    by blast
  with a b d show ?thesis by simp
qed

subsection \<open>Size limits\<close>

lemma length_stringifyElems_replicate:
  "length (stringifyElems (replicate n v)) = n * length (stringify v) + (n - 1)"
proof (induction n)
  case 0
  then show ?case by simp
next
  case (Suc n)
  then show ?case by (cases n) simp_all
qed

lemma checkNode_sampleNode: "checkNode i sampleNode st = Inr (fst st + 1, snd st)"
  by (simp add: sampleNode_def eval_defs)

lemma checkNodes_replicate_sampleNode:
  "checkNodes i (replicate n sampleNode) st = Inr (fst st + n, snd st)"
  by (induction n arbitrary: i st) (simp_all add: checkNode_sampleNode)

lemma length_stringify_sampleNode: "length (stringify sampleNode) = 57"
  by (simp add: sampleNode_def eval_defs)

lemma length_stringify_manyNodes:
  "length (stringify (manyNodes n)) = 23 + 57 * n + (n - 1)"
proof -
  have "length (stringify (manyNodes n)) = 23 + length (stringifyElems (replicate n sampleNode))"
    by (simp add: manyNodes_def eval_defs)
  then show ?thesis
    by (simp add: length_stringifyElems_replicate length_stringify_sampleNode)
qed

lemma validate_manyNodes:
  "validateWorkflowContent (Some (manyNodes n)) =
     Inr (if n = 0 then Invalid NoNodes else if n > 500 then Invalid TooManyNodes else Valid n)"
proof -
  have g: "get (manyNodes n) ''nodes'' = Some (JArr (replicate n sampleNode))"
    "get (manyNodes n) ''edges'' = Some (JArr [])" "get (manyNodes n) ''variables'' = None"
    "typeof (Some (manyNodes n)) = TObject" "truthy (Some (manyNodes n))"
    "\<not> isArray (Some (manyNodes n))"
    by (simp_all add: manyNodes_def)
  have sz: "n \<le> 500 \<Longrightarrow> length (stringify (manyNodes n)) \<le> 500000"
    by (simp add: length_stringify_manyNodes)
  have sz': "\<not> 500 < n \<Longrightarrow> \<not> 500000 < length (stringify (manyNodes n))"
    using sz by simp
  show ?thesis
    by (simp add: validateWorkflowContent_def g checkNodes_replicate_sampleNode afterNodes_def
          sz' del: stringify.simps)
qed

lemma escape_letters: "concat (map escapeChar (replicate k CHR ''x'')) = replicate k CHR ''x''"
  by (induction k) (simp_all add: escapeChar_def)

lemma length_stringify_bigData: "length (stringify (bigData k)) = k + 11"
  by (simp add: bigData_def quoteJSONString_def escape_letters escapeChar_def)

lemma length_stringify_bigDataDocument: "length (stringify (bigDataDocument k)) = k + 73"
  by (simp add: bigDataDocument_def bigData_def quoteJSONString_def escape_letters escapeChar_def)

lemma validate_bigDataDocument:
  "validateWorkflowContent (Some (bigDataDocument k)) =
     Inr (if k + 11 > 50000 then Invalid (NodeDataTooLarge ''n1'') else Valid 1)"
proof -
  have g: "get (bigDataDocument k) ''nodes''
             = Some (JArr [JObj [(''id'', JStr ''n1''), (''type'', JStr ''input_text''),
                                   (''data'', bigData k)]])"
    "get (bigDataDocument k) ''edges'' = Some (JArr [])" "get (bigDataDocument k) ''variables'' = None"
    "typeof (Some (bigDataDocument k)) = TObject" "truthy (Some (bigDataDocument k))"
    "\<not> isArray (Some (bigDataDocument k))"
    by (simp_all add: bigDataDocument_def)
  have d: "get (bigData k) ''moduleType'' = None" "truthy (Some (bigData k))"
    by (simp_all add: bigData_def)
  have node: "checkNode 0 (JObj [(''id'', JStr ''n1''), (''type'', JStr ''input_text''),
                                   (''data'', bigData k)]) (0, [])
      = (if k + 11 > 50000 then Inl (NodeDataTooLarge ''n1'') else Inr (1, []))"
    by (simp add: checkNode_def moduleTypeOf_def d length_stringify_bigData countType_def
          validModuleTypes_def del: stringify.simps)
  show ?thesis
    by (simp add: validateWorkflowContent_def g node afterNodes_def
          length_stringify_bigDataDocument del: stringify.simps)
qed


lemma checkNodes_data_size:
  "checkNodes i ns st = Inr st' \<Longrightarrow> n \<in> set ns \<Longrightarrow>
     length (stringify (orElse (get n ''data'') (JObj []))) \<le> 50000"
proof (induction ns arbitrary: i st)
  case Nil
  then show ?case by simp
next
  case (Cons m ns)
  from Cons.prems(1) obtain st1 where c1: "checkNode i m st = Inr st1"
    and rest: "checkNodes (i + 1) ns st1 = Inr st'"
    by (auto split: sum.splits)
  show ?case
  proof (cases "n = m")
    case True
    with checkNode_Inr(5)[OF c1] show ?thesis by simp
  next
    case False
    with Cons.prems(2) have "n \<in> set ns" by simp
    from Cons.IH[OF rest this] show ?thesis .
  qed
qed

lemma validate_Valid_bounds:
  assumes "validateWorkflowContent (Some c) = Inr (Valid n)"
  shows "n = length (elems (get c ''nodes'')) \<and> 0 < n \<and> n \<le> 500
       \<and> list_all (\<lambda>node. length (stringify (orElse (get node ''data'') (JObj []))) \<le> 50000)
             (elems (get c ''nodes''))"
proof -
  from assms obtain st where
    len: "0 < length (elems (get c ''nodes''))" "length (elems (get c ''nodes'')) \<le> 500"
    and nodes: "checkNodes 0 (elems (get c ''nodes'')) (0, []) = Inr st"
    and after: "afterNodes c st = Inr (Valid n)"
    by (rule validate_Valid_cases)
  from afterNodes_Valid(3)[OF after] len checkNodes_data_size[OF nodes]
  show ?thesis by (simp add: list_all_iff)
qed

text \<open>
  C6 (the limits on the number of nodes and on the size of a node's data). A document
  of 500 copies of the scenario node is accepted with \<^verbatim>\<open>nodeCount\<close> 500, one of 501
  copies is rejected for its size, one without nodes is rejected as empty. A node whose
  \<^verbatim>\<open>data\<close> is 50 000 characters long in JSON is accepted, one of 50 001 is rejected. In
  general a pass verdict carries the number of nodes, which is between 1 and 500, and
  no node of an accepted document has \<^verbatim>\<open>data\<close> longer than 50 000 characters.
\<close>

theorem size_boundaries:
  "validateWorkflowContent (Some (manyNodes 500)) = Inr (Valid 500)
   \<and> validateWorkflowContent (Some (manyNodes 501)) = Inr (Invalid TooManyNodes)
   \<and> validateWorkflowContent (Some (manyNodes 0)) = Inr (Invalid NoNodes)
   \<and> length (stringify (bigData 49989)) = 50000
   \<and> validateWorkflowContent (Some (bigDataDocument 49989)) = Inr (Valid 1)
   \<and> length (stringify (bigData 49990)) = 50001
   \<and> validateWorkflowContent (Some (bigDataDocument 49990))
         = Inr (Invalid (NodeDataTooLarge ''n1''))
   \<and> (\<forall>c n. validateWorkflowContent (Some c) = Inr (Valid n) \<longrightarrow>
          n = length (elems (get c ''nodes'')) \<and> 0 < n \<and> n \<le> 500
        \<and> list_all (\<lambda>node. length (stringify (orElse (get node ''data'') (JObj []))) \<le> 50000)
              (elems (get c ''nodes'')))"
proof (intro conjI allI impI)
  show "validateWorkflowContent (Some (manyNodes 500)) = Inr (Valid 500)"
    by (simp add: validate_manyNodes)
  show "validateWorkflowContent (Some (manyNodes 501)) = Inr (Invalid TooManyNodes)"
    by (simp add: validate_manyNodes)
  show "validateWorkflowContent (Some (manyNodes 0)) = Inr (Invalid NoNodes)"
    by (simp add: validate_manyNodes)
  show "length (stringify (bigData 49989)) = 50000"
    by (simp add: length_stringify_bigData)
  show "length (stringify (bigData 49990)) = 50001"
    by (simp add: length_stringify_bigData)
  show "validateWorkflowContent (Some (bigDataDocument 49989)) = Inr (Valid 1)"
    by (simp only: validate_bigDataDocument) simp
  show "validateWorkflowContent (Some (bigDataDocument 49990))
         = Inr (Invalid (NodeDataTooLarge ''n1''))"
    by (simp only: validate_bigDataDocument) simp
next
  fix c n
  assume v: "validateWorkflowContent (Some c) = Inr (Valid n)"
  from validate_Valid_bounds[OF v]
  show "n = length (elems (get c ''nodes''))" "0 < n" "n \<le> 500"
    "list_all (\<lambda>node. length (stringify (orElse (get node ''data'') (JObj []))) \<le> 50000)
       (elems (get c ''nodes''))"
    by auto
qed

theorem size_boundaries_witness:
  "validateWorkflowContent (Some (manyNodes 500)) = Inr (Valid 500)
   \<and> length (elems (get (manyNodes 500) ''nodes'')) = 500
   \<and> list_all (\<lambda>node. length (stringify (orElse (get node ''data'') (JObj []))) \<le> 50000)
        (elems (get (manyNodes 500) ''nodes''))"
proof -
  from size_boundaries have v: "validateWorkflowContent (Some (manyNodes 500)) = Inr (Valid 500)"
    by (rule conjunct1)
  from size_boundaries have
    "\<forall>c n. validateWorkflowContent (Some c) = Inr (Valid n) \<longrightarrow>
          n = length (elems (get c ''nodes'')) \<and> 0 < n \<and> n \<le> 500
        \<and> list_all (\<lambda>node. length (stringify (orElse (get node ''data'') (JObj []))) \<le> 50000)
              (elems (get c ''nodes''))"
    by (elim conjE)
  from this[rule_format, OF v] v show ?thesis by simp
qed

section \<open>Properties of the fingerprint\<close>

subsection \<open>Exceptions, the sort and the canonical form\<close>

lemma bindE_Inr_iff: "bindE x f = Inr r \<longleftrightarrow> (\<exists>v. x = Inr v \<and> f v = Inr r)"
  by (cases x) (simp_all add: bindE_def)

lemma bindE_Inr [simp]: "bindE (Inr v) f = f v"
  by (simp add: bindE_def)

lemma bindE_Inl [simp]: "bindE (Inl e) f = Inl e"
  by (simp add: bindE_def)

lemma mapE_Inr_iff: "mapE f xs = Inr ys \<longleftrightarrow> map f xs = map Inr ys"
proof (induction xs arbitrary: ys)
  case Nil
  then show ?case by auto
next
  case (Cons x xs)
  show ?case
  proof (cases ys)
    case Nil
    then show ?thesis by (auto simp: bindE_Inr_iff)
  next
    case (Cons y ys')
    with Cons.IH[of ys'] show ?thesis by (auto simp: bindE_Inr_iff)
  qed
qed

lemma insertBy_mset: "insertBy cmp x ys = Inr r \<Longrightarrow> mset r = add_mset x (mset ys)"
proof (induction ys arbitrary: r)
  case Nil
  then show ?case by auto
next
  case (Cons y ys)
  from Cons.prems obtain c where c: "cmp x y = Inr c"
    and r: "(if c < 0 then bindE (insertBy cmp x ys) (\<lambda>r. Inr (y # r)) else Inr (x # y # ys)) = Inr r"
    by (auto simp: bindE_Inr_iff)
  show ?case
  proof (cases "c < 0")
    case True
    with r obtain r' where r': "insertBy cmp x ys = Inr r'" and "r = y # r'"
      by (auto simp: bindE_Inr_iff)
    with Cons.IH[OF r'] show ?thesis by simp
  next
    case False
    with r show ?thesis by auto
  qed
qed

lemma sortFrom_mset: "sortFrom cmp placed xs = Inr r \<Longrightarrow> mset r = mset placed + mset xs"
proof (induction xs arbitrary: placed r)
  case Nil
  then show ?case by auto
next
  case (Cons x xs)
  from Cons.prems obtain d where d: "insertBy cmp x placed = Inr d" and s: "sortFrom cmp d xs = Inr r"
    by (auto simp: bindE_Inr_iff)
  from insertBy_mset[OF d] Cons.IH[OF s] show ?case by simp
qed

lemma sortBy_mset: "sortBy cmp xs = Inr r \<Longrightarrow> mset r = mset xs"
  using sortFrom_mset[of cmp "[]" xs r] by (simp add: sortBy_def)

lemma normalize_Inr:
  assumes "normalizeWorkflowForHash lc c = Inr r"
  obtains ns mapped es mappedEdges where
    "arrayOrEmpty (get c ''nodes'') = Inr ns" "map canonNode ns = map Inr mapped"
    "sortBy (compareNodes lc) mapped = Inr (cnodes r)"
    "arrayOrEmpty (get c ''edges'') = Inr es"
    "map (canonEdge (get c ''nodes'')) es = map Inr mappedEdges"
    "sortBy (compareEdges lc) mappedEdges = Inr (cedges r)"
proof -
  from assms obtain ns mapped nodes es mappedEdges edges where
    h: "arrayOrEmpty (get c ''nodes'') = Inr ns" "mapE canonNode ns = Inr mapped"
    "sortBy (compareNodes lc) mapped = Inr nodes"
    "arrayOrEmpty (get c ''edges'') = Inr es"
    "mapE (canonEdge (get c ''nodes'')) es = Inr mappedEdges"
    "sortBy (compareEdges lc) mappedEdges = Inr edges" "r = Canon nodes edges"
    by (auto simp: normalizeWorkflowForHash_def bindE_Inr_iff split: if_splits)
  with that[of ns mapped es mappedEdges] show ?thesis by (simp add: mapE_Inr_iff)
qed

lemma canonNode_ctype: "canonNode n = Inr cn \<Longrightarrow> ctype cn = get n ''type''"
  by (auto simp: canonNode_def split: if_splits)

lemma map_canonNode_ctype:
  "map canonNode ns = map Inr mapped \<Longrightarrow> map ctype mapped = map (\<lambda>n. get n ''type'') ns"
proof (induction ns arbitrary: mapped)
  case Nil
  then show ?case by simp
next
  case (Cons n ns)
  then show ?case by (cases mapped) (auto dest: canonNode_ctype)
qed

lemma findNode_Some: "findNode ns x = Inr (Some n) \<Longrightarrow> n \<in> set ns \<and> strictEq (get n ''id'') x"
  by (induction ns) (auto split: if_splits)

lemma arrayOrEmpty_Inr: "arrayOrEmpty v = Inr ns \<Longrightarrow> ns = elems v"
  by (cases v rule: arrayOrEmpty.cases) (auto split: if_splits)

lemma findNodeType_Inr:
  assumes "findNodeType nodes x = Inr t"
  shows "t = JStr ''unknown''
       \<or> (\<exists>n\<in>set (elems nodes). strictEq (get n ''id'') x \<and> get n ''type'' = Some t)"
proof -
  from assms obtain ns node where a: "arrayOrEmpty nodes = Inr ns"
    and f: "findNode ns x = Inr node" and t: "t = orElse (getOpt node ''type'') (JStr ''unknown'')"
    by (auto simp: findNodeType_def bindE_Inr_iff)
  show ?thesis
  proof (cases node)
    case None
    with t show ?thesis by simp
  next
    case (Some n)
    with f findNode_Some have n: "n \<in> set ns" "strictEq (get n ''id'') x" by auto
    show ?thesis
    proof (cases "get n ''type''")
      case None
      with t Some show ?thesis by simp
    next
      case (Some ty)
      with t \<open>node = Some n\<close> have "t = JStr ''unknown'' \<or> t = ty" by (simp split: if_splits)
      with n Some arrayOrEmpty_Inr[OF a] show ?thesis by auto
    qed
  qed
qed

lemmas hash_defs = normalizeWorkflowForHash_def canonNode_def canonEdge_def findNodeType_def
  normalizeNodeData_def normalizeStep_def setProperty_def ignoreKeys_def compareNodes_def compareEdges_def sortBy_def
  cnodeJson_def cedgeJson_def canonJson_def canonicalString_def calculateWorkflowHash_def

subsection \<open>The kind of a canonical node\<close>

text \<open>
  C1 (the canonical nodes and the endpoints of the canonical edges carry the effective
  step kind, \<^verbatim>\<open>data.moduleType\<close> when present). The code reads \<^verbatim>\<open>node.type\<close> in both
  places. In the React Flow format, which the validator accepts and resolves
  (\<^verbatim>\<open>type\<close> is \<^verbatim>\<open>moduleNode\<close> and \<^verbatim>\<open>data.moduleType\<close> is the module type), this is the
  wrapper kind: \<open>wrappedDocument\<close> has the module types \<^verbatim>\<open>open_page\<close> and
  \<^verbatim>\<open>click_element\<close>, both of its canonical nodes have the kind \<^verbatim>\<open>moduleNode\<close>, and its
  canonical edge goes from \<^verbatim>\<open>moduleNode\<close> to \<^verbatim>\<open>moduleNode\<close>. So the canonical edges
  of such a document tell how many edges there are and nothing else:
  \<open>wrappedRewired\<close>, in which the edge goes from \<^verbatim>\<open>click_element\<close> to \<^verbatim>\<open>open_page\<close>,
  gets a pass verdict too and has the hashed string of \<open>wrappedDocument\<close>, for every
  \<open>lc\<close>.
\<close>

theorem wrapped_kinds_dropped:
  "validateWorkflowContent (Some wrappedDocument) = Inr (Valid 2)
   \<and> validateWorkflowContent (Some wrappedRewired) = Inr (Valid 2)
   \<and> map moduleTypeOf (elems (get wrappedDocument ''nodes''))
       = [Some (JStr ''open_page''), Some (JStr ''click_element'')]
   \<and> (\<exists>r. normalizeWorkflowForHash lc wrappedDocument = Inr r
          \<and> map ctype (cnodes r) = [Some (JStr ''moduleNode''), Some (JStr ''moduleNode'')]
          \<and> cedges r = [CEdge (JStr ''moduleNode'') (JStr ''moduleNode'') JNull JNull])
   \<and> (\<exists>s. canonicalString lc wrappedDocument = Inr s \<and> canonicalString lc wrappedRewired = Inr s)"
proof -
  have v: "validateWorkflowContent (Some wrappedDocument) = Inr (Valid 2)"
    "validateWorkflowContent (Some wrappedRewired) = Inr (Valid 2)"
    by (simp_all add: wrappedDocument_def wrappedRewired_def eval_defs)
  have m: "map moduleTypeOf (elems (get wrappedDocument ''nodes''))
       = [Some (JStr ''open_page''), Some (JStr ''click_element'')]"
    by (simp add: wrappedDocument_def eval_defs)
  have n: "\<exists>r. normalizeWorkflowForHash lc wrappedDocument = Inr r
          \<and> map ctype (cnodes r) = [Some (JStr ''moduleNode''), Some (JStr ''moduleNode'')]
          \<and> cedges r = [CEdge (JStr ''moduleNode'') (JStr ''moduleNode'') JNull JNull]"
    by (simp add: wrappedDocument_def normalizeWorkflowForHash_def canonNode_def canonEdge_def
          findNodeType_def normalizeNodeData_def normalizeStep_def setProperty_def ignoreKeys_def
          compareNodes_def compareEdges_def sortBy_def Let_def)
  have e: "normalizeWorkflowForHash lc wrappedRewired = normalizeWorkflowForHash lc wrappedDocument"
    by (simp add: wrappedDocument_def wrappedRewired_def normalizeWorkflowForHash_def
          canonNode_def canonEdge_def findNodeType_def normalizeNodeData_def normalizeStep_def
          setProperty_def ignoreKeys_def compareEdges_def sortBy_def)
  from n e have "\<exists>s. canonicalString lc wrappedDocument = Inr s \<and> canonicalString lc wrappedRewired = Inr s"
    by (auto simp: canonicalString_def)
  with v m n show ?thesis by blast
qed

theorem wrapped_kinds_dropped_witness:
  "canonicalString codeUnitCompare wrappedRewired = canonicalString codeUnitCompare wrappedDocument"
  using wrapped_kinds_dropped[of codeUnitCompare] by auto

text \<open>
  What the canonical form holds in general: the kind of a canonical node is the field
  \<^verbatim>\<open>type\<close> of the node as submitted (\<^verbatim>\<open>data.moduleType\<close> stays inside the canonical
  data), and each end of a canonical edge is the sentinel \<^verbatim>\<open>unknown\<close> or the \<^verbatim>\<open>type\<close> of
  a node of the document whose \<^verbatim>\<open>id\<close> is strictly equal to that end of an edge of the
  document.
\<close>

theorem canonical_kind_is_type_field:
  assumes "normalizeWorkflowForHash lc c = Inr r"
  shows "mset (map ctype (cnodes r))
           = mset (map (\<lambda>node. get node ''type'') (elems (get c ''nodes'')))
       \<and> list_all (\<lambda>e. \<exists>edge\<in>set (elems (get c ''edges'')).
            (sourceType e = JStr ''unknown''
               \<or> (\<exists>n\<in>set (elems (get c ''nodes'')).
                     strictEq (get n ''id'') (get edge ''source'') \<and> get n ''type'' = Some (sourceType e)))
          \<and> (targetType e = JStr ''unknown''
               \<or> (\<exists>n\<in>set (elems (get c ''nodes'')).
                     strictEq (get n ''id'') (get edge ''target'') \<and> get n ''type'' = Some (targetType e))))
           (cedges r)"
proof -
  from assms obtain ns mapped es mappedEdges where
    ns: "arrayOrEmpty (get c ''nodes'') = Inr ns" and mapped: "map canonNode ns = map Inr mapped"
    and sorted: "sortBy (compareNodes lc) mapped = Inr (cnodes r)"
    and es: "arrayOrEmpty (get c ''edges'') = Inr es"
    and me: "map (canonEdge (get c ''nodes'')) es = map Inr mappedEdges"
    and se: "sortBy (compareEdges lc) mappedEdges = Inr (cedges r)"
    by (rule normalize_Inr)
  have "mset (map ctype (cnodes r)) = mset (map ctype mapped)"
    using sortBy_mset[OF sorted] by (metis mset_map)
  also have "\<dots> = mset (map (\<lambda>node. get node ''type'') (elems (get c ''nodes'')))"
    using map_canonNode_ctype[OF mapped] arrayOrEmpty_Inr[OF ns] by simp
  finally have nodes: "mset (map ctype (cnodes r))
           = mset (map (\<lambda>node. get node ''type'') (elems (get c ''nodes'')))" .
  have edge: "\<exists>edge\<in>set (elems (get c ''edges'')).
            (sourceType e = JStr ''unknown''
               \<or> (\<exists>n\<in>set (elems (get c ''nodes'')).
                     strictEq (get n ''id'') (get edge ''source'') \<and> get n ''type'' = Some (sourceType e)))
          \<and> (targetType e = JStr ''unknown''
               \<or> (\<exists>n\<in>set (elems (get c ''nodes'')).
                     strictEq (get n ''id'') (get edge ''target'') \<and> get n ''type'' = Some (targetType e)))"
    if "e \<in> set (cedges r)" for e
  proof -
    from that sortBy_mset[OF se] have "e \<in> set mappedEdges" by (metis set_mset_mset)
    then have "Inr e \<in> set (map (canonEdge (get c ''nodes'')) es)" using me by simp
    then obtain edge where edge: "edge \<in> set es" "canonEdge (get c ''nodes'') edge = Inr e"
      by auto
    then obtain st tt where
      "findNodeType (get c ''nodes'') (get edge ''source'') = Inr st"
      "findNodeType (get c ''nodes'') (get edge ''target'') = Inr tt"
      "sourceType e = st" "targetType e = tt"
      by (auto simp: canonEdge_def bindE_Inr_iff split: if_splits)
    with findNodeType_Inr[of "get c ''nodes''" "get edge ''source''" st]
      findNodeType_Inr[of "get c ''nodes''" "get edge ''target''" tt]
    have "(sourceType e = JStr ''unknown''
               \<or> (\<exists>n\<in>set (elems (get c ''nodes'')).
                     strictEq (get n ''id'') (get edge ''source'') \<and> get n ''type'' = Some (sourceType e)))
          \<and> (targetType e = JStr ''unknown''
               \<or> (\<exists>n\<in>set (elems (get c ''nodes'')).
                     strictEq (get n ''id'') (get edge ''target'') \<and> get n ''type'' = Some (targetType e)))"
      by blast
    moreover from edge(1) arrayOrEmpty_Inr[OF es] have "edge \<in> set (elems (get c ''edges''))" by simp
    ultimately show ?thesis by blast
  qed
  from nodes edge show ?thesis by (simp add: list_all_iff)
qed

theorem canonical_kind_is_type_field_instance:
  "mset (map ctype
      [CNode (Some (JStr ''moduleNode'')) (JObj [(''moduleType'', JStr ''click_element'')]),
       CNode (Some (JStr ''moduleNode'')) (JObj [(''moduleType'', JStr ''open_page'')])])
     = mset (map (\<lambda>node. get node ''type'') (elems (get wrappedDocument ''nodes'')))"
proof -
  have n: "normalizeWorkflowForHash codeUnitCompare wrappedDocument
     = Inr (Canon
         [CNode (Some (JStr ''moduleNode'')) (JObj [(''moduleType'', JStr ''click_element'')]),
          CNode (Some (JStr ''moduleNode'')) (JObj [(''moduleType'', JStr ''open_page'')])]
         [CEdge (JStr ''moduleNode'') (JStr ''moduleNode'') JNull JNull])"
    by (simp add: wrappedDocument_def eval_defs hash_defs)
  from canonical_kind_is_type_field[OF n] show ?thesis by simp
qed

subsection \<open>Cosmetic edits\<close>

lemma bindE_assoc: "bindE (bindE x f) g = bindE x (\<lambda>v. bindE (f v) g)"
  by (cases x) simp_all

lemma normalize_alt:
  "normalizeWorkflowForHash lc c =
     (if c = JNull then Inl TypeError
      else
        bindE (bindE (arrayOrEmpty (get c ''nodes'')) (mapE canonNode)) (\<lambda>mapped.
        bindE (sortBy (compareNodes lc) mapped) (\<lambda>nodes.
        bindE (bindE (arrayOrEmpty (get c ''edges'')) (mapE (canonEdge (get c ''nodes''))))
          (\<lambda>mappedEdges.
        bindE (sortBy (compareEdges lc) mappedEdges) (\<lambda>edges.
        Inr (Canon nodes edges))))))"
  by (simp add: normalizeWorkflowForHash_def bindE_assoc)

lemma map_of_mapField:
  "map_of (map (\<lambda>p. if fst p = k then (k, g (snd p)) else p) kvs) k'
     = (if k' = k then map_option g (map_of kvs k) else map_of kvs k')"
  by (induction kvs) auto

lemma get_mapField:
  "get (mapField k g v) k' = (if k' = k then map_option g (get v k) else get v k')"
  by (cases v) (simp_all add: map_of_mapField)

lemma mapField_Null [simp]: "mapField k g v = JNull \<longleftrightarrow> v = JNull"
  by (cases v) simp_all

lemma map_of_filter_neq:
  "map_of (filter (\<lambda>p. fst p \<noteq> k) kvs) k' = (if k' = k then None else map_of kvs k')"
  by (induction kvs) auto

lemma get_setField: "k' \<noteq> k \<Longrightarrow> get (setField k v x) k' = get x k'"
proof (cases x)
  case (JObj kvs)
  assume "k' \<noteq> k"
  then show ?thesis
    by (cases v)
       (auto simp: JObj map_of_filter_neq map_of_mapField[of k "\<lambda>_. w" for w, simplified]
          map_add_def split: option.splits)
qed simp_all

lemma setField_Null [simp]: "setField k v x = JNull \<longleftrightarrow> x = JNull"
  by (cases "(k, v, x)" rule: setField.cases) simp_all

lemma truthy_setField [simp]: "truthy (Some (setField k v x)) = truthy (Some x)"
  by (cases "(k, v, x)" rule: setField.cases) simp_all

lemma foldl_normalizeStep_filter:
  "k \<in> set ignoreKeys \<Longrightarrow>
     foldl normalizeStep acc (filter (\<lambda>p. fst p \<noteq> k) kvs) = foldl normalizeStep acc kvs"
  by (induction kvs arbitrary: acc) (auto simp: normalizeStep_def)

lemma filter_setField:
  "filter (\<lambda>p. fst p \<noteq> k) (objectEntries (setField k v (JObj kvs)))
     = filter (\<lambda>p. fst p \<noteq> k) kvs"
proof -
  have "filter (\<lambda>p. fst p \<noteq> k) (map (\<lambda>p. if fst p = k then (k, w) else p) kvs)
          = filter (\<lambda>p. fst p \<noteq> k) kvs" for w
    by (induction kvs) auto
  then show ?thesis by (cases v) auto
qed

lemma normalizeNodeData_setField:
  assumes "k \<in> set ignoreKeys"
  shows "normalizeNodeData (setField k v d) = normalizeNodeData d"
proof (cases d)
  case (JObj kvs)
  have "foldl normalizeStep [] (objectEntries (setField k v (JObj kvs)))
      = foldl normalizeStep [] (filter (\<lambda>p. fst p \<noteq> k) (objectEntries (setField k v (JObj kvs))))"
    using foldl_normalizeStep_filter[OF assms] by simp
  also have "\<dots> = foldl normalizeStep [] kvs"
    using foldl_normalizeStep_filter[OF assms] by (simp only: filter_setField)
  finally show ?thesis by (simp add: JObj normalizeNodeData_def)
qed simp_all

lemma cosmetic_ignored: "k \<in> set cosmeticFields \<Longrightarrow> k \<in> set ignoreKeys"
  by (auto simp: cosmeticFields_def ignoreKeys_def)

lemma orElse_setField:
  "normalizeNodeData (orElse (map_option (setField k v) x) y)
     = normalizeNodeData (orElse x y)" if "k \<in> set ignoreKeys"
  using that by (cases x) (simp_all add: normalizeNodeData_setField)

lemma canonNode_editAt:
  assumes "k \<in> set cosmeticFields"
  shows "canonNode (editAt pl k v n) = canonNode n"
proof -
  have k: "k \<noteq> ''type''" "k \<noteq> ''data''" "k \<noteq> ''config''" "k \<in> set ignoreKeys"
    using assms by (auto simp: cosmeticFields_def ignoreKeys_def)
  show ?thesis
  proof (cases pl)
    case OfNode
    with k show ?thesis by (simp add: canonNode_def get_setField)
  next
    case OfData
    with k show ?thesis
      by (simp add: canonNode_def get_mapField orElse_setField)
  next
    case OfConfig
    have "orElse (get n ''data'') (orElse (map_option (setField k v) (get n ''config'')) (JObj []))
        = orElse (get n ''data'') (orElse (get n ''config'') (JObj []))
      \<or> (orElse (get n ''data'') (orElse (map_option (setField k v) (get n ''config'')) (JObj []))
            = setField k v (orElse (get n ''data'') (orElse (get n ''config'') (JObj []))))"
      by (cases "get n ''data''"; cases "get n ''config''") auto
    with OfConfig k show ?thesis
      by (auto simp: canonNode_def get_mapField normalizeNodeData_setField)
  qed
qed


lemma findNode_cong:
  assumes "list_all2 (\<lambda>n' n. (n' = JNull \<longleftrightarrow> n = JNull)
              \<and> strictEq (get n' ''id'') x' = strictEq (get n ''id'') x
              \<and> get n' ''type'' = get n ''type'') ns' ns"
  shows "map_sum id (\<lambda>node. getOpt node ''type'') (findNode ns' x')
       = map_sum id (\<lambda>node. getOpt node ''type'') (findNode ns x)"
  using assms by (induction ns' ns rule: list_all2_induct) auto

lemma findNodeType_alt:
  "findNodeType (Some (JArr ns)) x =
     (case map_sum id (\<lambda>node. getOpt node ''type'') (findNode ns x) of
        Inl e \<Rightarrow> Inl e
      | Inr t \<Rightarrow> Inr (orElse t (JStr ''unknown'')))"
  by (cases "findNode ns x") (simp_all add: findNodeType_def)

lemma findNodeType_cong:
  assumes "list_all2 (\<lambda>n' n. (n' = JNull \<longleftrightarrow> n = JNull)
              \<and> strictEq (get n' ''id'') x' = strictEq (get n ''id'') x
              \<and> get n' ''type'' = get n ''type'') ns' ns"
  shows "findNodeType (Some (JArr ns')) x' = findNodeType (Some (JArr ns)) x"
  by (simp only: findNodeType_alt findNode_cong[OF assms])


lemma mapE_cong_map: "map f xs = map f' xs' \<Longrightarrow> mapE f xs = mapE f' xs'"
proof (induction xs arbitrary: xs')
  case Nil
  then show ?case by simp
next
  case (Cons x xs)
  then show ?case by (cases xs') auto
qed

lemma elems_cases:
  obtains (array) ns where "v = Some (JArr ns)"
  | (other) "\<And>g. map_option (mapElems g) v = v" "\<And>i g. map_option (mapElemAt i g) v = v"
      "\<And>ns. v \<noteq> Some (JArr ns)"
proof (cases v)
  case None
  then show ?thesis using other by simp
next
  case (Some a)
  then show ?thesis using array other by (cases a) auto
qed

lemma editAt_fields:
  assumes "k \<in> set cosmeticFields"
  shows "(editAt pl k v n = JNull \<longleftrightarrow> n = JNull)"
    and "get (editAt pl k v n) ''id'' = get n ''id''"
    and "get (editAt pl k v n) ''type'' = get n ''type''"
proof -
  have k: "k \<noteq> ''id''" "k \<noteq> ''type''"
    using assms by (auto simp: cosmeticFields_def)
  show "(editAt pl k v n = JNull \<longleftrightarrow> n = JNull)" by (cases pl) simp_all
  from k show "get (editAt pl k v n) ''id'' = get n ''id''"
    by (cases pl) (simp_all add: get_setField get_mapField)
  from k show "get (editAt pl k v n) ''type'' = get n ''type''"
    by (cases pl) (simp_all add: get_setField get_mapField)
qed

lemma normalize_applyEdit:
  assumes "editField e \<in> set cosmeticFields"
  shows "normalizeWorkflowForHash lc (applyEdit e c) = normalizeWorkflowForHash lc c"
proof -
  define ed where "ed = editAt (editPlace e) (editField e) (editValue e)"
  define c' where "c' = applyEdit e c"
  have null: "c' = JNull \<longleftrightarrow> c = JNull" by (simp add: c'_def applyEdit_def)
  have edges: "get c' ''edges'' = get c ''edges''"
    by (simp add: c'_def applyEdit_def get_mapField)
  have nodes: "get c' ''nodes'' = map_option (mapElemAt (editIndex e) ed) (get c ''nodes'')"
    by (simp add: c'_def applyEdit_def get_mapField ed_def)
  have "normalizeWorkflowForHash lc c' = normalizeWorkflowForHash lc c"
  proof (cases "get c ''nodes''" rule: elems_cases)
    case other
    with nodes have "get c' ''nodes'' = get c ''nodes''" by simp
    with null edges show ?thesis by (simp add: normalizeWorkflowForHash_def)
  next
    case (array ns)
    define ns' where "ns' = (if editIndex e < length ns then ns[editIndex e := ed (ns ! editIndex e)] else ns)"
    from array nodes have n': "get c' ''nodes'' = Some (JArr ns')" by (simp add: ns'_def)
    have rel: "list_all2 (\<lambda>n' n. n' = n \<or> n' = ed n) ns' ns"
      by (auto simp: ns'_def list_all2_conv_all_nth nth_list_update)
    have "map canonNode ns' = map canonNode ns"
      using rel assms by (induction ns' ns rule: list_all2_induct) (auto simp: ed_def canonNode_editAt)
    then have A: "mapE canonNode ns' = mapE canonNode ns" by (rule mapE_cong_map)
    have "list_all2 (\<lambda>n' n. (n' = JNull \<longleftrightarrow> n = JNull)
              \<and> strictEq (get n' ''id'') x = strictEq (get n ''id'') x
              \<and> get n' ''type'' = get n ''type'') ns' ns" for x
      using rel editAt_fields[OF assms]
      by (induction ns' ns rule: list_all2_induct) (auto simp: ed_def)
    then have "findNodeType (Some (JArr ns')) x = findNodeType (Some (JArr ns)) x" for x
      by (rule findNodeType_cong)
    then have B: "canonEdge (Some (JArr ns')) = canonEdge (Some (JArr ns))"
      by (simp add: canonEdge_def fun_eq_iff)
    from null edges array n' A B show ?thesis by (simp add: normalizeWorkflowForHash_def)
  qed
  then show ?thesis by (simp add: c'_def)
qed

lemma normalize_applyEdits:
  "list_all (\<lambda>e. editField e \<in> set cosmeticFields) edits \<Longrightarrow>
     normalizeWorkflowForHash lc (applyEdits edits c) = normalizeWorkflowForHash lc c"
proof (induction edits arbitrary: c)
  case Nil
  then show ?case by (simp add: applyEdits_def)
next
  case (Cons e edits)
  have "applyEdits (e # edits) c = applyEdits edits (applyEdit e c)"
    by (simp add: applyEdits_def)
  with Cons normalize_applyEdit[of e lc c] show ?case by simp
qed


lemma stringsOf_iff: "s \<in> set (stringsOf vs) \<longleftrightarrow> Some (JStr s) \<in> set vs"
  by (induction vs rule: stringsOf.induct) auto

lemma strictEq_rename:
  assumes "\<And>s t. a = Some (JStr s) \<Longrightarrow> b = Some (JStr t) \<Longrightarrow> (f s = f t \<longleftrightarrow> s = t)"
  shows "strictEq (map_option (renameString f) a) (map_option (renameString f) b) = strictEq a b"
  using assms by (cases "(a, b)" rule: strictEq.cases) auto

lemma canonNode_renameNode: "canonNode (renameNode f n) = canonNode n"
  by (simp add: canonNode_def renameNode_def get_mapField)

lemma renameEdge_fields:
  "(renameEdge f e = JNull \<longleftrightarrow> e = JNull)"
  "get (renameEdge f e) ''source'' = map_option (renameString f) (get e ''source'')"
  "get (renameEdge f e) ''target'' = map_option (renameString f) (get e ''target'')"
  "get (renameEdge f e) ''sourceHandle'' = get e ''sourceHandle''"
  "get (renameEdge f e) ''targetHandle'' = get e ''targetHandle''"
  by (simp_all add: renameEdge_def get_mapField)

lemma normalize_renameIds:
  assumes inj: "inj_on f (set (idStrings c))"
  shows "normalizeWorkflowForHash lc (renameIds f c) = normalizeWorkflowForHash lc c"
proof -
  define c' where "c' = renameIds f c"
  have null: "c' = JNull \<longleftrightarrow> c = JNull" by (simp add: c'_def renameIds_def)
  have edges: "get c' ''edges'' = map_option (mapElems (renameEdge f)) (get c ''edges'')"
    by (simp add: c'_def renameIds_def get_mapField)
  have nodes: "get c' ''nodes'' = map_option (mapElems (renameNode f)) (get c ''nodes'')"
    by (simp add: c'_def renameIds_def get_mapField)
  have A: "bindE (arrayOrEmpty (get c' ''nodes'')) (mapE canonNode)
         = bindE (arrayOrEmpty (get c ''nodes'')) (mapE canonNode)"
  proof (cases "get c ''nodes''" rule: elems_cases)
    case other
    with nodes show ?thesis by simp
  next
    case (array ns)
    have "mapE canonNode (map (renameNode f) ns) = mapE canonNode ns"
      by (rule mapE_cong_map) (simp add: canonNode_renameNode)
    with array nodes show ?thesis by simp
  qed
  have find: "findNodeType (get c' ''nodes'') (map_option (renameString f) x)
            = findNodeType (get c ''nodes'') x"
    if x: "\<And>s. x = Some (JStr s) \<Longrightarrow> s \<in> set (idStrings c)" for x
  proof (cases "get c ''nodes''" rule: elems_cases)
    case other
    with nodes have same: "get c' ''nodes'' = get c ''nodes''" by simp
    have "findNodeType (get c ''nodes'') y = findNodeType (get c ''nodes'') x" for y
      using other(3) by (cases "get c ''nodes''" rule: arrayOrEmpty.cases)
         (auto simp: findNodeType_def)
    with same show ?thesis by simp
  next
    case (array ns)
    have "(n' = JNull \<longleftrightarrow> n = JNull)
        \<and> strictEq (get n' ''id'') (map_option (renameString f) x) = strictEq (get n ''id'') x
        \<and> get n' ''type'' = get n ''type''"
      if "n \<in> set ns" "n' = renameNode f n" for n n'
    proof -
      have "f s = f t \<longleftrightarrow> s = t" if "get n ''id'' = Some (JStr s)" "x = Some (JStr t)" for s t
      proof -
        from that(1) \<open>n \<in> set ns\<close> array have "s \<in> set (idStrings c)"
          by (force simp: idStrings_def stringsOf_iff)
        with x[OF that(2)] inj show ?thesis by (auto dest: inj_onD)
      qed
      then have "strictEq (map_option (renameString f) (get n ''id'')) (map_option (renameString f) x)
          = strictEq (get n ''id'') x"
        by (rule strictEq_rename)
      with that(2) show ?thesis by (simp add: renameNode_def get_mapField)
    qed
    then have "list_all2 (\<lambda>n' n. (n' = JNull \<longleftrightarrow> n = JNull)
              \<and> strictEq (get n' ''id'') (map_option (renameString f) x) = strictEq (get n ''id'') x
              \<and> get n' ''type'' = get n ''type'') (map (renameNode f) ns) ns"
      by (simp add: list_all2_conv_all_nth)
    from findNodeType_cong[OF this] array nodes show ?thesis by simp
  qed
  have B: "bindE (arrayOrEmpty (get c' ''edges'')) (mapE (canonEdge (get c' ''nodes'')))
         = bindE (arrayOrEmpty (get c ''edges'')) (mapE (canonEdge (get c ''nodes'')))"
  proof (cases "get c ''edges''" rule: elems_cases)
    case other
    with edges have same: "get c' ''edges'' = get c ''edges''" by simp
    have "arrayOrEmpty (get c ''edges'') = Inl TypeError \<or> arrayOrEmpty (get c ''edges'') = Inr []"
      using other(3) by (cases "get c ''edges''" rule: arrayOrEmpty.cases) auto
    with same show ?thesis by auto
  next
    case (array es)
    have "canonEdge (get c' ''nodes'') (renameEdge f e) = canonEdge (get c ''nodes'') e"
      if "e \<in> set es" for e
    proof -
      have "s \<in> set (idStrings c)" if "get e ''source'' = Some (JStr s)" for s
        using that \<open>e \<in> set es\<close> array by (force simp: idStrings_def stringsOf_iff)
      moreover have "s \<in> set (idStrings c)" if "get e ''target'' = Some (JStr s)" for s
        using that \<open>e \<in> set es\<close> array by (force simp: idStrings_def stringsOf_iff)
      ultimately show ?thesis
        by (simp add: canonEdge_def renameEdge_fields find)
    qed
    then have "map (canonEdge (get c' ''nodes'')) (map (renameEdge f) es)
             = map (canonEdge (get c ''nodes'')) es"
      by simp
    then have "mapE (canonEdge (get c' ''nodes'')) (map (renameEdge f) es)
             = mapE (canonEdge (get c ''nodes'')) es"
      by (rule mapE_cong_map)
    with array edges show ?thesis by simp
  qed
  from null A B have "normalizeWorkflowForHash lc c' = normalizeWorkflowForHash lc c"
    by (simp only: normalize_alt)
  then show ?thesis by (simp add: c'_def)
qed

text \<open>
  C4 (renaming the ids and changing the cosmetic fields leaves the fingerprint as it
  is). For every document, every renaming \<open>f\<close> of the ids that keeps different ids of the
  document different (so the edges, renamed with the nodes, connect the same nodes), and
  every list of edits of the fields \<^verbatim>\<open>position\<close>, \<^verbatim>\<open>label\<close>, \<^verbatim>\<open>name\<close>,
  \<^verbatim>\<open>description\<close>, the fingerprint of the edited document is the fingerprint of the
  original one; when the original has none because \<^verbatim>\<open>calculateWorkflowHash\<close> throws, so
  does the edited one. The instance after the theorem takes the identity for \<open>sha\<close>:
  the hashed strings themselves are equal.
\<close>

theorem cosmetic_invariance:
  assumes "inj_on f (set (idStrings c))"
    and "list_all (\<lambda>e. editField e \<in> set cosmeticFields) edits"
  shows "calculateWorkflowHash lc sha (applyEdits edits (renameIds f c))
       = calculateWorkflowHash lc sha c"
  using assms
  by (simp add: calculateWorkflowHash_def canonicalString_def normalize_applyEdits
        normalize_renameIds)


theorem cosmetic_invariance_witness:
  "inj_on freshId (set (idStrings labelledDocument))
   \<and> list_all (\<lambda>e. editField e \<in> set cosmeticFields) labelEdits
   \<and> applyEdits labelEdits (renameIds freshId labelledDocument) \<noteq> labelledDocument
   \<and> calculateWorkflowHash codeUnitCompare (\<lambda>s. s)
         (applyEdits labelEdits (renameIds freshId labelledDocument))
       = calculateWorkflowHash codeUnitCompare (\<lambda>s. s) labelledDocument"
proof -
  have i: "inj_on freshId (set (idStrings labelledDocument))"
    by (simp add: inj_on_def freshId_def)
  have e: "list_all (\<lambda>e. editField e \<in> set cosmeticFields) labelEdits"
    by (simp add: labelEdits_def cosmeticFields_def)
  have d: "applyEdits labelEdits (renameIds freshId labelledDocument) \<noteq> labelledDocument"
    by (simp add: labelledDocument_def labelEdits_def applyEdits_def applyEdit_def
          renameIds_def renameNode_def renameEdge_def freshId_def)
  from i e d cosmetic_invariance[OF i e, of codeUnitCompare "\<lambda>s. s"] show ?thesis by simp
qed

subsection \<open>The serialization determines the value\<close>

lemma natToString_small: "n < 10 \<Longrightarrow> natToString n = [digit n]"
  by (subst natToString.simps) simp

lemma natToString_large:
  "\<not> n < 10 \<Longrightarrow> natToString n = natToString (n div 10) @ [digit (n mod 10)]"
  by (subst natToString.simps) simp

lemma digit_inj: "d < 10 \<Longrightarrow> e < 10 \<Longrightarrow> digit d = digit e \<Longrightarrow> d = e"
  unfolding digit_def by (subst (asm) nth_eq_iff_index_eq) simp_all

lemma digit_in: "d < 10 \<Longrightarrow> digit d \<in> set ''0123456789''"
  unfolding digit_def by (rule nth_mem) simp

lemma natToString_digits: "set (natToString n) \<subseteq> set ''0123456789''"
proof (induction n rule: natToString.induct)
  case (1 n)
  show ?case
  proof (cases "n < 10")
    case True
    then show ?thesis using digit_in[of n] by (simp add: natToString_small)
  next
    case False
    with 1 digit_in[of "n mod 10"] show ?thesis by (simp add: natToString_large)
  qed
qed

lemma natToString_nonempty: "natToString n \<noteq> []"
  by (cases "n < 10") (simp_all add: natToString_small natToString_large)

lemma natToString_inj: "natToString n = natToString m \<Longrightarrow> n = m"
proof (induction n arbitrary: m rule: natToString.induct)
  case (1 n)
  show ?case
  proof (cases "n < 10")
    case n: True
    show ?thesis
    proof (cases "m < 10")
      case True
      with n "1.prems" show ?thesis by (simp add: natToString_small digit_inj)
    next
      case False
      with n "1.prems" natToString_nonempty[of "m div 10"] show ?thesis
        by (simp add: natToString_small natToString_large)
    qed
  next
    case n: False
    show ?thesis
    proof (cases "m < 10")
      case True
      with n "1.prems" natToString_nonempty[of "n div 10"] show ?thesis
        by (simp add: natToString_small natToString_large)
    next
      case False
      with n "1.prems" have a: "natToString (n div 10) = natToString (m div 10)"
        and b: "digit (n mod 10) = digit (m mod 10)"
        by (simp_all add: natToString_large)
      from "1.IH"[OF n a] have "n div 10 = m div 10" .
      moreover from b have "n mod 10 = m mod 10" by (rule digit_inj[rotated 2]) simp_all
      ultimately show ?thesis by (metis div_mult_mod_eq)
    qed
  qed
qed

lemma digit_run_unique:
  assumes "ds @ r = ds' @ r'" "set ds \<subseteq> D" "set ds' \<subseteq> D"
    and "r = [] \<or> hd r \<notin> D" "r' = [] \<or> hd r' \<notin> D"
  shows "ds = ds' \<and> r = r'"
  using assms
proof (induction ds arbitrary: ds')
  case Nil
  then show ?case by (cases ds') auto
next
  case (Cons d ds)
  then show ?case by (cases ds') auto
qed

lemma intToString_inj:
  assumes "intToString i @ r = intToString j @ r'"
    and "r = [] \<or> hd r \<notin> set ''0123456789''" "r' = [] \<or> hd r' \<notin> set ''0123456789''"
  shows "i = j \<and> r = r'"
proof -
  have nohd: "natToString n \<noteq> CHR ''-'' # xs" for n xs
    using natToString_digits[of n] by (cases "natToString n") auto
  have run: "natToString n @ r = natToString m @ r' \<Longrightarrow> n = m \<and> r = r'" for n m
    using digit_run_unique[OF _ natToString_digits natToString_digits assms(2,3)]
    by (auto dest: natToString_inj)
  show ?thesis
  proof (cases "i < 0"; cases "j < 0")
    assume "i < 0" "j < 0"
    with assms(1) run[of "nat (- i)" "nat (- j)"] show ?thesis by (auto simp: intToString_def)
  next
    assume "i < 0" "\<not> j < 0"
    with assms(1) nohd[of "nat j"] natToString_nonempty[of "nat j"] show ?thesis
      by (cases "natToString (nat j)") (auto simp: intToString_def)
  next
    assume "\<not> i < 0" "j < 0"
    with assms(1) nohd[of "nat i"] natToString_nonempty[of "nat i"] show ?thesis
      by (cases "natToString (nat i)") (auto simp: intToString_def)
  next
    assume "\<not> i < 0" "\<not> j < 0"
    with assms(1) run[of "nat i" "nat j"] show ?thesis by (auto simp: intToString_def)
  qed
qed


lemma intToString_first:
  "\<exists>c cs. intToString i = c # cs \<and> (c = CHR ''-'' \<or> c \<in> set ''0123456789'')"
proof (cases "i < 0")
  case True
  then show ?thesis by (simp add: intToString_def)
next
  case False
  with natToString_digits[of "nat i"] natToString_nonempty[of "nat i"] show ?thesis
    by (cases "natToString (nat i)") (auto simp: intToString_def)
qed

lemma hexDigit_inj: "d < 16 \<Longrightarrow> e < 16 \<Longrightarrow> hexDigit d = hexDigit e \<Longrightarrow> d = e"
  unfolding hexDigit_def by (subst (asm) nth_eq_iff_index_eq) simp_all

lemma hex_pair_inj:
  assumes "(of_char c :: nat) < 32" "(of_char d :: nat) < 32"
    and "hexDigit (of_char c div 16) = hexDigit (of_char d div 16)"
    and "hexDigit (of_char c mod 16) = hexDigit (of_char d mod 16)"
  shows "c = d"
proof -
  from assms(1,2,3) have "(of_char c :: nat) div 16 = of_char d div 16"
    by (intro hexDigit_inj) auto
  moreover from assms(4) have "(of_char c :: nat) mod 16 = of_char d mod 16"
    by (intro hexDigit_inj) auto
  ultimately have "(of_char c :: nat) = of_char d" by (metis div_mult_mod_eq)
  then show ?thesis by simp
qed

lemma escapeChar_first: "\<exists>a as. escapeChar c = a # as \<and> a \<noteq> CHR 0x22"
  by (simp add: escapeChar_def)

lemma escapeChar_prefix: "escapeChar c @ x = escapeChar d @ y \<Longrightarrow> c = d \<and> x = y"
  by (auto simp: escapeChar_def split: if_splits dest: hex_pair_inj)

lemma concat_escape_inj:
  "concat (map escapeChar s) @ CHR 0x22 # r = concat (map escapeChar s') @ CHR 0x22 # r'
     \<Longrightarrow> s = s' \<and> r = r'"
proof (induction s arbitrary: s')
  case Nil
  show ?case
  proof (cases s')
    case Nil
    with Nil.prems show ?thesis by simp
  next
    case (Cons c cs)
    with Nil.prems escapeChar_first[of c] show ?thesis by auto
  qed
next
  case (Cons c cs)
  show ?case
  proof (cases s')
    case Nil
    with Cons.prems escapeChar_first[of c] show ?thesis by auto
  next
    case (Cons c' cs')
    with Cons.prems have
      "escapeChar c @ (concat (map escapeChar cs) @ CHR 0x22 # r)
         = escapeChar c' @ (concat (map escapeChar cs') @ CHR 0x22 # r')"
      by simp
    from escapeChar_prefix[OF this] Cons.IH[of cs'] Cons show ?thesis by simp
  qed
qed

lemma quoteJSONString_inj:
  "quoteJSONString s @ r = quoteJSONString s' @ r' \<Longrightarrow> s = s' \<and> r = r'"
  using concat_escape_inj[of s r s' r'] by (simp add: quoteJSONString_def)


lemma stringify_first:
  "\<exists>c cs. stringify v = c # cs \<and>
     (case v of
        JNull \<Rightarrow> c = CHR ''n''
      | JBool b \<Rightarrow> c = CHR ''t'' \<or> c = CHR ''f''
      | JNum n \<Rightarrow> c = CHR ''-'' \<or> c \<in> set ''0123456789''
      | JStr s \<Rightarrow> c = CHR 0x22
      | JArr vs \<Rightarrow> c = CHR ''[''
      | JObj kvs \<Rightarrow> c = CHR ''{'')"
  using intToString_first by (cases v) (auto simp: quoteJSONString_def)

lemma stringify_first_plain:
  "\<exists>c cs. stringify v = c # cs \<and> c \<noteq> CHR '']'' \<and> c \<noteq> CHR ''}'' \<and> c \<noteq> CHR '',''"
  using stringify_first[of v] by (cases v) auto

lemma stringify_same_kind:
  assumes "stringify v @ r = stringify v' @ r'"
  shows "(case v of
        JNull \<Rightarrow> v' = JNull
      | JBool b \<Rightarrow> (\<exists>b'. v' = JBool b')
      | JNum n \<Rightarrow> (\<exists>n'. v' = JNum n')
      | JStr s \<Rightarrow> (\<exists>s'. v' = JStr s')
      | JArr vs \<Rightarrow> (\<exists>vs'. v' = JArr vs')
      | JObj kvs \<Rightarrow> (\<exists>kvs'. v' = JObj kvs'))"
proof -
  from stringify_first[of v] obtain c cs where c: "stringify v = c # cs"
    and k: "(case v of
        JNull \<Rightarrow> c = CHR ''n''
      | JBool b \<Rightarrow> c = CHR ''t'' \<or> c = CHR ''f''
      | JNum n \<Rightarrow> c = CHR ''-'' \<or> c \<in> set ''0123456789''
      | JStr s \<Rightarrow> c = CHR 0x22
      | JArr vs \<Rightarrow> c = CHR ''[''
      | JObj kvs \<Rightarrow> c = CHR ''{'')" by blast
  from stringify_first[of v'] obtain c' cs' where c': "stringify v' = c' # cs'"
    and k': "(case v' of
        JNull \<Rightarrow> c' = CHR ''n''
      | JBool b \<Rightarrow> c' = CHR ''t'' \<or> c' = CHR ''f''
      | JNum n \<Rightarrow> c' = CHR ''-'' \<or> c' \<in> set ''0123456789''
      | JStr s \<Rightarrow> c' = CHR 0x22
      | JArr vs \<Rightarrow> c' = CHR ''[''
      | JObj kvs \<Rightarrow> c' = CHR ''{'')" by blast
  from assms c c' have "c = c'" by simp
  with k k' show ?thesis by (cases v; cases v') auto
qed


lemma stringify_prefix_free:
  "stringify v @ r = stringify v' @ r'
     \<Longrightarrow> r = [] \<or> hd r \<notin> set ''0123456789''
     \<Longrightarrow> r' = [] \<or> hd r' \<notin> set ''0123456789''
     \<Longrightarrow> v = v' \<and> r = r'"
  and "stringifyElems vs @ CHR '']'' # r = stringifyElems vs' @ CHR '']'' # r'
     \<Longrightarrow> vs = vs' \<and> r = r'"
  and "stringifyProps kvs @ CHR ''}'' # r = stringifyProps kvs' @ CHR ''}'' # r'
     \<Longrightarrow> kvs = kvs' \<and> r = r'"
proof (induction v and vs and kvs arbitrary: v' r r' and vs' r r' and kvs' r r'
    rule: stringify_stringifyElems_stringifyProps.induct)
  case 1
  from stringify_same_kind[OF "1.prems"(1)] "1.prems"(1) show ?case by simp
next
  case (2 b)
  from stringify_same_kind[OF "2.prems"(1)] "2.prems"(1) show ?case
    by (auto split: if_splits)
next
  case (3 n)
  from stringify_same_kind[OF "3.prems"(1)] obtain n' where "v' = JNum n'" by auto
  with "3.prems" intToString_inj[of n r n' r'] show ?case by simp
next
  case (4 s)
  from stringify_same_kind[OF "4.prems"(1)] obtain s' where "v' = JStr s'" by auto
  with "4.prems"(1) quoteJSONString_inj[of s r s' r'] show ?case by simp
next
  case (5 vs)
  from stringify_same_kind[OF "5.prems"(1)] obtain vs' where "v' = JArr vs'" by auto
  with "5.prems"(1) "5.IH"[of r vs' r'] show ?case by simp
next
  case (6 kvs)
  from stringify_same_kind[OF "6.prems"(1)] obtain kvs' where "v' = JObj kvs'" by auto
  with "6.prems"(1) "6.IH"[of r kvs' r'] show ?case by simp
next
  case 7
  show ?case
  proof (cases vs')
    case Nil
    with "7.prems" show ?thesis by simp
  next
    case (Cons v' ws')
    with "7.prems" stringify_first_plain[of v'] show ?thesis by (cases ws') auto
  qed
next
  case (8 v)
  show ?case
  proof (cases vs')
    case Nil
    with "8.prems" stringify_first_plain[of v] show ?thesis by auto
  next
    case (Cons v' ws')
    show ?thesis
    proof (cases ws')
      case Nil
      with Cons "8.prems" "8.IH"[of "CHR '']'' # r" v' "CHR '']'' # r'"] show ?thesis by simp
    next
      case (Cons w' xs')
      with \<open>vs' = v' # ws'\<close> "8.prems"
        "8.IH"[of "CHR '']'' # r" v' "CHR '','' # stringifyElems (w' # xs') @ CHR '']'' # r'"]
      show ?thesis by simp
    qed
  qed
next
  case (9 v w ws)
  show ?case
  proof (cases vs')
    case Nil
    with "9.prems" stringify_first_plain[of v] show ?thesis by auto
  next
    case (Cons v' ws')
    show ?thesis
    proof (cases ws')
      case Nil
      with Cons "9.prems"
        "9.IH"(1)[of "CHR '','' # stringifyElems (w # ws) @ CHR '']'' # r" v' "CHR '']'' # r'"]
      show ?thesis by simp
    next
      case (Cons w' xs')
      with \<open>vs' = v' # ws'\<close> "9.prems"
        "9.IH"(1)[of "CHR '','' # stringifyElems (w # ws) @ CHR '']'' # r" v'
                    "CHR '','' # stringifyElems (w' # xs') @ CHR '']'' # r'"]
        "9.IH"(2)[of r "w' # xs'" r']
      show ?thesis by simp
    qed
  qed
next
  case 10
  show ?case
  proof (cases kvs')
    case Nil
    with "10.prems" show ?thesis by simp
  next
    case (Cons p' ps')
    with "10.prems" show ?thesis
      by (cases p'; cases ps') (auto simp: quoteJSONString_def)
  qed
next
  case (11 k v)
  show ?case
  proof (cases kvs')
    case Nil
    with "11.prems" show ?thesis by (simp add: quoteJSONString_def)
  next
    case (Cons p' ps')
    obtain k' v' where p': "p' = (k', v')" by (cases p')
    show ?thesis
    proof (cases ps')
      case Nil
      with Cons p' "11.prems"
      have "quoteJSONString k @ (CHR '':'' # stringify v @ CHR ''}'' # r)
          = quoteJSONString k' @ (CHR '':'' # stringify v' @ CHR ''}'' # r')"
        by simp
      from quoteJSONString_inj[OF this] "11.IH"[of "CHR ''}'' # r" v' "CHR ''}'' # r'"]
        Cons p' Nil
      show ?thesis by simp
    next
      case (Cons q' qs')
      with \<open>kvs' = p' # ps'\<close> p' "11.prems"
      have "quoteJSONString k @ (CHR '':'' # stringify v @ CHR ''}'' # r)
          = quoteJSONString k' @ (CHR '':'' # stringify v'
               @ CHR '','' # stringifyProps (q' # qs') @ CHR ''}'' # r')"
        by simp
      from quoteJSONString_inj[OF this]
        "11.IH"[of "CHR ''}'' # r" v' "CHR '','' # stringifyProps (q' # qs') @ CHR ''}'' # r'"]
      show ?thesis by simp
    qed
  qed
next
  case (12 k v p ps)
  show ?case
  proof (cases kvs')
    case Nil
    with "12.prems" show ?thesis by (simp add: quoteJSONString_def)
  next
    case (Cons p' ps')
    obtain k' v' where p': "p' = (k', v')" by (cases p')
    show ?thesis
    proof (cases ps')
      case Nil
      with Cons p' "12.prems"
      have "quoteJSONString k @ (CHR '':'' # stringify v
               @ CHR '','' # stringifyProps (p # ps) @ CHR ''}'' # r)
          = quoteJSONString k' @ (CHR '':'' # stringify v' @ CHR ''}'' # r')"
        by simp
      from quoteJSONString_inj[OF this]
        "12.IH"(1)[of "CHR '','' # stringifyProps (p # ps) @ CHR ''}'' # r" v' "CHR ''}'' # r'"]
      show ?thesis by simp
    next
      case (Cons q' qs')
      with \<open>kvs' = p' # ps'\<close> p' "12.prems"
      have "quoteJSONString k @ (CHR '':'' # stringify v
               @ CHR '','' # stringifyProps (p # ps) @ CHR ''}'' # r)
          = quoteJSONString k' @ (CHR '':'' # stringify v'
               @ CHR '','' # stringifyProps (q' # qs') @ CHR ''}'' # r')"
        by simp
      from quoteJSONString_inj[OF this]
        "12.IH"(1)[of "CHR '','' # stringifyProps (p # ps) @ CHR ''}'' # r" v'
                     "CHR '','' # stringifyProps (q' # qs') @ CHR ''}'' # r'"]
        "12.IH"(2)[of r "q' # qs'" r'] Cons \<open>kvs' = p' # ps'\<close> p'
      show ?thesis by simp
    qed
  qed
qed

lemma stringify_inj: "stringify v = stringify v' \<Longrightarrow> v = v'"
  using stringify_prefix_free(1)[of v "[]" v' "[]"] by simp

subsection \<open>Functional edits\<close>

text \<open>
  C5 (changing the value of a data field that is not cosmetic changes the hashed
  string). Replacing the empty string in \<^verbatim>\<open>data.url\<close> of \<open>emptyUrlDocument\<close> by null
  changes the value of the field and leaves the hashed string as it is: the loop of
  \<^verbatim>\<open>normalizeNodeData\<close> skips both values.
\<close>

theorem empty_value_change_unseen:
  "get (JObj [(''url'', JStr [])]) ''url'' \<noteq> Some JNull
   \<and> applyFunctional (SetData 0 ''url'' (Some JNull)) emptyUrlDocument
       = JObj [(''nodes'', JArr
             [JObj [(''id'', JStr ''n1''), (''type'', JStr ''open_page''),
                    (''data'', JObj [(''url'', JNull)])]]),
           (''edges'', JArr [])]
   \<and> validateWorkflowContent (Some emptyUrlDocument) = Inr (Valid 1)
   \<and> validateWorkflowContent
         (Some (applyFunctional (SetData 0 ''url'' (Some JNull)) emptyUrlDocument)) = Inr (Valid 1)
   \<and> canonicalString codeUnitCompare
         (applyFunctional (SetData 0 ''url'' (Some JNull)) emptyUrlDocument)
       = canonicalString codeUnitCompare emptyUrlDocument"
  by (simp add: emptyUrlDocument_def eval_defs hash_defs)


lemma cnodeJson_inj: "cnodeJson a = cnodeJson b \<Longrightarrow> a = b"
  by (cases a; cases b) (auto simp: cnodeJson_def split: option.splits)

lemma cedgeJson_inj: "cedgeJson a = cedgeJson b \<Longrightarrow> a = b"
  by (cases a; cases b) (simp add: cedgeJson_def)

lemma canonJson_inj: "canonJson r = canonJson r' \<Longrightarrow> r = r'"
proof -
  assume a: "canonJson r = canonJson r'"
  have "inj cnodeJson" "inj cedgeJson"
    by (auto intro: injI dest: cnodeJson_inj cedgeJson_inj)
  with a have "cnodes r = cnodes r'" "cedges r = cedges r'"
    by (auto simp: canonJson_def dest: inj_mapD[THEN injD])
  then show ?thesis by (cases r; cases r') simp
qed

lemma canonicalString_Inr:
  assumes "canonicalString lc c = Inr s"
  obtains r where "normalizeWorkflowForHash lc c = Inr r" "s = stringify (canonJson r)"
  using assms by (auto simp: canonicalString_def bindE_Inr_iff)

lemma canonicalString_neq:
  assumes "canonicalString lc c = Inr s" "canonicalString lc c' = Inr s'"
    and "\<And>r r'. normalizeWorkflowForHash lc c = Inr r \<Longrightarrow>
            normalizeWorkflowForHash lc c' = Inr r' \<Longrightarrow> r \<noteq> r'"
  shows "s' \<noteq> s"
proof -
  from assms(1) obtain r where r: "normalizeWorkflowForHash lc c = Inr r" "s = stringify (canonJson r)"
    by (rule canonicalString_Inr)
  from assms(2) obtain r' where r': "normalizeWorkflowForHash lc c' = Inr r'"
    "s' = stringify (canonJson r')"
    by (rule canonicalString_Inr)
  from assms(3)[OF r(1) r'(1)] r(2) r'(2) show ?thesis
    by (auto dest: stringify_inj canonJson_inj)
qed

lemma setProperty_new:
  "k \<noteq> ''__proto__'' \<Longrightarrow> map_of acc k = None \<Longrightarrow> setProperty acc k v = acc @ [(k, v)]"
  by (simp add: setProperty_def)

lemma foldl_normalizeStep_distinct:
  assumes "distinct (map fst kvs)" "fst ` set acc \<inter> fst ` set kvs = {}"
  shows "foldl normalizeStep acc kvs
       = acc @ filter (\<lambda>p. fst p \<notin> set ignoreKeys \<and> snd p \<noteq> JNull \<and> snd p \<noteq> JStr []
                              \<and> fst p \<noteq> ''__proto__'') kvs"
  using assms
proof (induction kvs arbitrary: acc)
  case Nil
  then show ?case by simp
next
  case (Cons p kvs)
  have none: "map_of acc (fst p) = None"
    using Cons.prems(2) by (auto simp: map_of_eq_None_iff)
  show ?case
  proof (cases "fst p \<notin> set ignoreKeys \<and> snd p \<noteq> JNull \<and> snd p \<noteq> JStr []
                 \<and> fst p \<noteq> ''__proto__''")
    case True
    then have step: "normalizeStep acc p = acc @ [p]"
      using none by (simp add: normalizeStep_def setProperty_new)
    have "fst ` set (acc @ [p]) \<inter> fst ` set kvs = {}"
      using Cons.prems by auto
    with Cons.IH[of "acc @ [p]"] Cons.prems(1) step True show ?thesis by simp
  next
    case False
    then have step: "normalizeStep acc p = acc"
      by (auto simp: normalizeStep_def setProperty_def)
    have "fst ` set acc \<inter> fst ` set kvs = {}"
      using Cons.prems by auto
    with Cons.IH[of acc] Cons.prems(1) step False show ?thesis by auto
  qed
qed

lemma map_of_filter_distinct:
  "distinct (map fst kvs) \<Longrightarrow>
     map_of (filter P kvs) k
       = (case map_of kvs k of None \<Rightarrow> None | Some x \<Rightarrow> if P (k, x) then Some x else None)"
proof (induction kvs)
  case Nil
  then show ?case by simp
next
  case (Cons p kvs)
  then show ?case
    by (cases p) (auto simp: map_of_eq_None_iff image_iff split: option.splits)
qed

lemma setField_object:
  obtains kvs' where "setField k v (JObj kvs) = JObj kvs'" "map_of kvs' k = v"
    "distinct (map fst kvs) \<Longrightarrow> distinct (map fst kvs')"
proof (cases v)
  case None
  have "distinct (map fst kvs) \<Longrightarrow> distinct (map fst (filter (\<lambda>p. fst p \<noteq> k) kvs))"
    by (simp add: distinct_map_filter)
  with None that[of "filter (\<lambda>p. fst p \<noteq> k) kvs"] show ?thesis
    by (simp add: map_of_filter_neq)
next
  case (Some w)
  show ?thesis
  proof (cases "map_of kvs k")
    case None
    then have "k \<notin> fst ` set kvs" by (simp add: map_of_eq_None_iff)
    with None Some that[of "kvs @ [(k, w)]"] show ?thesis
      by (auto simp: map_add_def)
  next
    case (Some old)
    have keys: "map (fst \<circ> (\<lambda>p. if fst p = k then (k, w) else p)) kvs = map fst kvs"
      by (induction kvs) auto
    from Some \<open>v = Some w\<close> that[of "map (\<lambda>p. if fst p = k then (k, w) else p) kvs"]
    show ?thesis
      by (simp add: keys map_of_mapField[of k "\<lambda>_. w", simplified])
  qed
qed

lemma normalizeNodeData_changed:
  assumes "distinct (map fst kvs)" "k \<notin> set ignoreKeys" "k \<noteq> ''__proto__''"
    and "map_of kvs k \<noteq> v" "isEmptyValue (map_of kvs k) \<longrightarrow> \<not> isEmptyValue v"
  shows "normalizeNodeData (setField k v (JObj kvs)) \<noteq> normalizeNodeData (JObj kvs)"
proof -
  define keep where "keep = (\<lambda>p :: string \<times> json. fst p \<notin> set ignoreKeys \<and> snd p \<noteq> JNull
                              \<and> snd p \<noteq> JStr [] \<and> fst p \<noteq> ''__proto__'')"
  obtain kvs' where kvs': "setField k v (JObj kvs) = JObj kvs'" "map_of kvs' k = v"
    "distinct (map fst kvs')"
    using setField_object[of k v kvs] assms(1) by blast
  have n: "normalizeNodeData (JObj xs) = JObj (filter keep xs)" if "distinct (map fst xs)" for xs
    using foldl_normalizeStep_distinct[of xs "[]"] that
    by (simp add: normalizeNodeData_def keep_def)
  have clean: "map_of (filter keep xs) k
      = (case map_of xs k of None \<Rightarrow> None
         | Some x \<Rightarrow> if x \<noteq> JNull \<and> x \<noteq> JStr [] then Some x else None)"
    if "distinct (map fst xs)" for xs
    using map_of_filter_distinct[OF that, of keep k] assms(2,3)
    by (auto simp: keep_def split: option.splits)
  have e: "isEmptyValue x \<longleftrightarrow>
     (case x of None \<Rightarrow> None | Some y \<Rightarrow> if y \<noteq> JNull \<and> y \<noteq> JStr [] then Some y else None) = None"
    for x
    by (cases x rule: isEmptyValue.cases) auto
  have "map_of (filter keep kvs') k \<noteq> map_of (filter keep kvs) k"
    using assms(4,5) kvs'(2) e[of v] e[of "map_of kvs k"]
    by (simp only: clean[OF kvs'(3)] clean[OF assms(1)]) (auto split: option.splits if_splits)
  then have "filter keep kvs' \<noteq> filter keep kvs" by auto
  with n[OF kvs'(3)] n[OF assms(1)] kvs'(1) show ?thesis by simp
qed

lemma mset_update_neq:
  assumes "i < length xs" "y \<noteq> xs ! i"
  shows "mset (xs[i := y]) \<noteq> mset xs"
proof
  assume eq: "mset (xs[i := y]) = mset xs"
  have "count (mset (xs[i := y])) y = count (mset xs) y + 1"
    using assms by (simp add: mset_update)
  with eq show False by simp
qed


lemma elems_nonempty_array: "i < length (elems v) \<Longrightarrow> v = Some (JArr (elems v))"
  by (cases v rule: elems.cases) simp_all

lemma isArray_elems: "isArray v \<Longrightarrow> v = Some (JArr (elems v))"
  by (cases v rule: isArray.cases) simp_all

lemma node_update_changes:
  assumes r: "normalizeWorkflowForHash lc c = Inr r"
    and r': "normalizeWorkflowForHash lc c' = Inr r'"
    and ns: "get c ''nodes'' = Some (JArr ns)"
    and ns': "get c' ''nodes'' = Some (JArr (ns[i := x]))"
    and i: "i < length ns" and x: "canonNode x \<noteq> canonNode (ns ! i)"
  shows "r \<noteq> r'"
proof -
  from r ns obtain mapped where m: "map canonNode ns = map Inr mapped"
    and s: "sortBy (compareNodes lc) mapped = Inr (cnodes r)"
    by (auto elim!: normalize_Inr)
  from r' ns' obtain mapped' where m': "map canonNode (ns[i := x]) = map Inr mapped'"
    and s': "sortBy (compareNodes lc) mapped' = Inr (cnodes r')"
    by (auto elim!: normalize_Inr)
  from m m' have len: "length mapped = length ns" "length mapped' = length ns"
    by (metis length_map length_list_update)+
  have same: "mapped' ! j = mapped ! j" if "j < length ns" "j \<noteq> i" for j
  proof -
    from m that have "canonNode (ns ! j) = Inr (mapped ! j)"
      by (metis len(1) nth_map)
    moreover from m' that have "canonNode (ns ! j) = Inr (mapped' ! j)"
      by (metis len(2) length_list_update nth_list_update_neq nth_map)
    ultimately show ?thesis by simp
  qed
  have at: "mapped' ! i \<noteq> mapped ! i"
  proof -
    from m i have "canonNode (ns ! i) = Inr (mapped ! i)" by (metis len(1) nth_map)
    moreover from m' i have "canonNode x = Inr (mapped' ! i)"
      by (metis len(2) length_list_update nth_list_update_eq nth_map)
    ultimately show ?thesis using x by auto
  qed
  have "mapped' = mapped[i := mapped' ! i]"
  proof (rule nth_equalityI)
    show "length mapped' = length (mapped[i := mapped' ! i])" using len by simp
  next
    fix j
    assume "j < length mapped'"
    then show "mapped' ! j = mapped[i := mapped' ! i] ! j"
      using same[of j] len by (cases "j = i") simp_all
  qed
  with mset_update_neq[of i mapped "mapped' ! i"] at i len
  have "mset mapped' \<noteq> mset mapped" by auto
  with sortBy_mset[OF s] sortBy_mset[OF s'] show ?thesis by auto
qed

lemma edge_count_changes:
  assumes r: "normalizeWorkflowForHash lc c = Inr r"
    and r': "normalizeWorkflowForHash lc c' = Inr r'"
    and es: "get c ''edges'' = Some (JArr es)"
    and es': "get c' ''edges'' = Some (JArr es')"
    and len: "length es' \<noteq> length es"
  shows "r \<noteq> r'"
proof -
  from r es obtain mapped where m: "map (canonEdge (get c ''nodes'')) es = map Inr mapped"
    and s: "sortBy (compareEdges lc) mapped = Inr (cedges r)"
    by (auto elim!: normalize_Inr)
  from r' es' obtain mapped' where m': "map (canonEdge (get c' ''nodes'')) es' = map Inr mapped'"
    and s': "sortBy (compareEdges lc) mapped' = Inr (cedges r')"
    by (auto elim!: normalize_Inr)
  from m have "length mapped = length es" by (metis length_map)
  moreover from m' have "length mapped' = length es'" by (metis length_map)
  moreover from sortBy_mset[OF s] have "length (cedges r) = length mapped"
    by (metis size_mset)
  moreover from sortBy_mset[OF s'] have "length (cedges r') = length mapped'"
    by (metis size_mset)
  ultimately show ?thesis using len by auto
qed

lemma canonNode_setType:
  assumes "moduleTypeOf (setField ''type'' t n) \<noteq> moduleTypeOf n"
  shows "canonNode (setField ''type'' t n) \<noteq> canonNode n"
proof -
  have d: "get (setField ''type'' t n) ''data'' = get n ''data''"
    by (simp add: get_setField)
  have "moduleTypeOf (setField ''type'' t n) = moduleTypeOf n"
    if "get (setField ''type'' t n) ''type'' = get n ''type''"
    by (simp only: moduleTypeOf_def d that)
  with assms have ty: "get (setField ''type'' t n) ''type'' \<noteq> get n ''type''"
    by blast
  then have "n \<noteq> JNull" by auto
  with ty show ?thesis by (simp add: canonNode_def)
qed

lemma canonNode_setData:
  assumes "get n ''data'' = Some (JObj kvs)"
    and "distinct (map fst kvs)" "k \<notin> set ignoreKeys" "k \<noteq> ''__proto__''"
    and "map_of kvs k \<noteq> v" "isEmptyValue (map_of kvs k) \<longrightarrow> \<not> isEmptyValue v"
  shows "canonNode (mapField ''data'' (setField k v) n) \<noteq> canonNode n"
proof -
  from assms(1) have "n \<noteq> JNull" by auto
  moreover obtain kvs' where "setField k v (JObj kvs) = JObj kvs'"
    by (rule setField_object)
  ultimately show ?thesis
    using normalizeNodeData_changed[OF assms(2-6)] assms(1)
    by (simp add: canonNode_def get_mapField)
qed

text \<open>
  C5, amended: when a functional edit changes the document (\<open>changes\<close>: another module
  type through \<^verbatim>\<open>type\<close>; another value of a data field that is not an ignored key,
  unless both values are empty; an edge more; an edge less) and the canonical form can
  be computed before and after it, the hashed string after the edit is not the one
  before.
\<close>

theorem sensitivity:
  assumes "changes e c"
    and "canonicalString lc c = Inr s"
    and "canonicalString lc (applyFunctional e c) = Inr s'"
  shows "s' \<noteq> s"
proof (rule canonicalString_neq[OF assms(2,3)])
  fix r r'
  assume r: "normalizeWorkflowForHash lc c = Inr r"
    and r': "normalizeWorkflowForHash lc (applyFunctional e c) = Inr r'"
  show "r \<noteq> r'"
  proof (cases e)
    case (SetType i t)
    define ns where "ns = elems (get c ''nodes'')"
    from assms(1) SetType have i: "i < length ns"
      and m: "moduleTypeOf (setField ''type'' t (ns ! i)) \<noteq> moduleTypeOf (ns ! i)"
      by (simp_all add: ns_def)
    from i have ns: "get c ''nodes'' = Some (JArr ns)"
      unfolding ns_def by (rule elems_nonempty_array)
    with i SetType have "get (applyFunctional e c) ''nodes''
        = Some (JArr (ns[i := setField ''type'' t (ns ! i)]))"
      by (simp add: get_mapField)
    from node_update_changes[OF r r' ns this i canonNode_setType[OF m]] show ?thesis .
  next
    case (SetData i k v)
    define ns where "ns = elems (get c ''nodes'')"
    from assms(1) SetData have i: "i < length ns"
      and k: "k \<notin> set ignoreKeys" "k \<noteq> ''__proto__''"
      by (simp_all add: ns_def)
    from assms(1) SetData obtain kvs where d: "get (ns ! i) ''data'' = Some (JObj kvs)"
      and kvs: "distinct (map fst kvs)" "map_of kvs k \<noteq> v"
        "isEmptyValue (map_of kvs k) \<longrightarrow> \<not> isEmptyValue v"
      by (auto simp: ns_def split: option.splits json.splits)
    from i have ns: "get c ''nodes'' = Some (JArr ns)"
      unfolding ns_def by (rule elems_nonempty_array)
    with i SetData have "get (applyFunctional e c) ''nodes''
        = Some (JArr (ns[i := mapField ''data'' (setField k v) (ns ! i)]))"
      by (simp add: get_mapField)
    from node_update_changes[OF r r' ns this i canonNode_setData[OF d kvs(1) k kvs(2,3)]]
    show ?thesis .
  next
    case (AddEdge j x)
    from assms(1) AddEdge have es: "get c ''edges'' = Some (JArr (elems (get c ''edges'')))"
      by (simp add: isArray_elems)
    then obtain es where es': "get c ''edges'' = Some (JArr es)" ..
    with AddEdge have "get (applyFunctional e c) ''edges''
        = Some (JArr (take j es @ x # drop j es))"
      by (simp add: get_mapField)
    from edge_count_changes[OF r r' es' this] show ?thesis by simp
  next
    case (RemoveEdge j)
    define es where "es = elems (get c ''edges'')"
    from assms(1) RemoveEdge have j: "j < length es" by (simp add: es_def)
    then have es': "get c ''edges'' = Some (JArr es)"
      unfolding es_def by (rule elems_nonempty_array)
    with RemoveEdge have "get (applyFunctional e c) ''edges''
        = Some (JArr (take j es @ drop (Suc j) es))"
      by (simp add: get_mapField)
    from edge_count_changes[OF r r' es' this] j show ?thesis by simp
  qed
qed


text \<open>
  A change of the module type through \<^verbatim>\<open>data.moduleType\<close> is a change of a data field
  in the sense of \<open>changes\<close>: the old and the new value differ and are not both empty.
\<close>

lemma kind_change_through_data:
  assumes "get n ''data'' = Some (JObj kvs)"
    and "moduleTypeOf (mapField ''data'' (setField ''moduleType'' v) n) \<noteq> moduleTypeOf n"
  shows "map_of kvs ''moduleType'' \<noteq> v
       \<and> (isEmptyValue (map_of kvs ''moduleType'') \<longrightarrow> \<not> isEmptyValue v)"
proof -
  obtain kvs' where kvs': "setField ''moduleType'' v (JObj kvs) = JObj kvs'"
    "map_of kvs' ''moduleType'' = v"
    by (rule setField_object)
  have e: "isEmptyValue x \<Longrightarrow> \<not> truthy x" for x
    by (cases x rule: isEmptyValue.cases) auto
  have m: "moduleTypeOf (mapField ''data'' (setField ''moduleType'' v) n)
      = (if truthy v then v else if truthy (get n ''type'') then get n ''type'' else None)"
    using assms(1) kvs' by (simp add: moduleTypeOf_def get_mapField)
  have m0: "moduleTypeOf n
      = (if truthy (map_of kvs ''moduleType'') then map_of kvs ''moduleType''
         else if truthy (get n ''type'') then get n ''type'' else None)"
    using assms(1) by (simp add: moduleTypeOf_def)
  from assms(2) show ?thesis
    unfolding m m0 by (auto dest: e split: if_splits)
qed

theorem sensitivity_witness:
  "changes (SetData 0 ''url'' (Some (JStr ''https://y''))) labelledDocument
   \<and> canonicalString codeUnitCompare
         (applyFunctional (SetData 0 ''url'' (Some (JStr ''https://y''))) labelledDocument)
       \<noteq> canonicalString codeUnitCompare labelledDocument"
proof -
  have c: "changes (SetData 0 ''url'' (Some (JStr ''https://y''))) labelledDocument"
    by (simp add: labelledDocument_def ignoreKeys_def)
  obtain s where s: "canonicalString codeUnitCompare labelledDocument = Inr s"
    by (simp add: labelledDocument_def hash_defs eval_defs)
  obtain s' where s': "canonicalString codeUnitCompare
         (applyFunctional (SetData 0 ''url'' (Some (JStr ''https://y''))) labelledDocument) = Inr s'"
    by (simp add: labelledDocument_def hash_defs eval_defs)
  from sensitivity[OF c s s'] c s s' show ?thesis by simp
qed

subsection \<open>The order of the nodes\<close>

text \<open>
  C3 (the fingerprint does not depend on the order of the nodes and of the edges). The
  two documents \<open>emptyTypeFirstDocument\<close> and \<open>emptyTypeLastDocument\<close> hold the same two
  nodes in different orders and both get a pass verdict. The comparison function of the
  sort takes \<^verbatim>\<open>(a.type || '')\<close>, so it does not tell the node whose \<^verbatim>\<open>type\<close> is the
  empty string from the node without \<^verbatim>\<open>type\<close>, and their data are equal: it returns 0,
  the stable sort keeps the order of the input, and \<^verbatim>\<open>JSON.stringify\<close> prints the
  property \<^verbatim>\<open>type\<close> of one node and not of the other. The hashed strings of the two
  documents differ, for every \<open>lc\<close> that returns 0 on two equal strings.
\<close>

theorem order_changes_hashed_string:
  assumes "lc [] [] = 0"
    and "lc (stringify (JObj [(''moduleType'', JStr ''open_page'')]))
            (stringify (JObj [(''moduleType'', JStr ''open_page'')])) = 0"
  shows "mset (elems (get emptyTypeLastDocument ''nodes''))
           = mset (elems (get emptyTypeFirstDocument ''nodes''))
       \<and> validateWorkflowContent (Some emptyTypeFirstDocument) = Inr (Valid 2)
       \<and> validateWorkflowContent (Some emptyTypeLastDocument) = Inr (Valid 2)
       \<and> (\<exists>s s'. canonicalString lc emptyTypeFirstDocument = Inr s
                \<and> canonicalString lc emptyTypeLastDocument = Inr s' \<and> s' \<noteq> s)"
proof -
  have v: "validateWorkflowContent (Some emptyTypeFirstDocument) = Inr (Valid 2)"
    "validateWorkflowContent (Some emptyTypeLastDocument) = Inr (Valid 2)"
    by (simp_all add: emptyTypeFirstDocument_def emptyTypeLastDocument_def emptyTypeNode_def
          untypedNode_def eval_defs)
  have p: "mset (elems (get emptyTypeLastDocument ''nodes''))
             = mset (elems (get emptyTypeFirstDocument ''nodes''))"
    by (simp add: emptyTypeFirstDocument_def emptyTypeLastDocument_def)
  have a: "normalizeWorkflowForHash lc emptyTypeFirstDocument
      = Inr (Canon [CNode (Some (JStr [])) (JObj [(''moduleType'', JStr ''open_page'')]),
                    CNode None (JObj [(''moduleType'', JStr ''open_page'')])] [])"
    using assms
    by (simp add: emptyTypeFirstDocument_def emptyTypeNode_def untypedNode_def
          normalizeWorkflowForHash_def canonNode_def normalizeNodeData_def normalizeStep_def
          setProperty_def ignoreKeys_def compareNodes_def sortBy_def)
  have b: "normalizeWorkflowForHash lc emptyTypeLastDocument
      = Inr (Canon [CNode None (JObj [(''moduleType'', JStr ''open_page'')]),
                    CNode (Some (JStr [])) (JObj [(''moduleType'', JStr ''open_page'')])] [])"
    using assms
    by (simp add: emptyTypeLastDocument_def emptyTypeNode_def untypedNode_def
          normalizeWorkflowForHash_def canonNode_def normalizeNodeData_def normalizeStep_def
          setProperty_def ignoreKeys_def compareNodes_def sortBy_def)
  have "stringify (canonJson (Canon [CNode None (JObj [(''moduleType'', JStr ''open_page'')]),
                    CNode (Some (JStr [])) (JObj [(''moduleType'', JStr ''open_page'')])] []))
     \<noteq> stringify (canonJson (Canon [CNode (Some (JStr [])) (JObj [(''moduleType'', JStr ''open_page'')]),
                    CNode None (JObj [(''moduleType'', JStr ''open_page'')])] []))"
    by (auto dest!: stringify_inj canonJson_inj)
  with a b v p show ?thesis by (simp add: canonicalString_def)
qed

theorem order_changes_hashed_string_witness:
  "canonicalString codeUnitCompare emptyTypeLastDocument
     \<noteq> canonicalString codeUnitCompare emptyTypeFirstDocument"
proof -
  have "codeUnitCompare [] [] = 0" by simp
  moreover have "codeUnitCompare (stringify (JObj [(''moduleType'', JStr ''open_page'')]))
            (stringify (JObj [(''moduleType'', JStr ''open_page'')])) = 0"
    by (simp add: eval_defs)
  ultimately show ?thesis using order_changes_hashed_string[of codeUnitCompare] by auto
qed

text \<open>
  A second pair of documents: the node \<open>numericTypeNode\<close> has the number 5 as its
  \<^verbatim>\<open>type\<close>. Both orders get a pass verdict. One has a fingerprint; on the other the
  comparison function is called with that node as its first argument,
  \<^verbatim>\<open>(a.type || '')\<close> is a number without the method \<^verbatim>\<open>localeCompare\<close>, and
  \<^verbatim>\<open>calculateWorkflowHash\<close> throws, for every \<open>lc\<close> and \<open>sha\<close>.
\<close>

theorem permutation_changes_outcome:
  "mset (elems (get numericLastDocument ''nodes'')) = mset (elems (get numericFirstDocument ''nodes''))
   \<and> validateWorkflowContent (Some numericFirstDocument) = Inr (Valid 2)
   \<and> validateWorkflowContent (Some numericLastDocument) = Inr (Valid 2)
   \<and> (\<exists>h. calculateWorkflowHash lc sha numericFirstDocument = Inr h)
   \<and> calculateWorkflowHash lc sha numericLastDocument = Inl TypeError"
proof -
  have v: "validateWorkflowContent (Some numericFirstDocument) = Inr (Valid 2)"
    "validateWorkflowContent (Some numericLastDocument) = Inr (Valid 2)"
    by (simp_all add: numericFirstDocument_def numericLastDocument_def numericTypeNode_def
          plainNode_def eval_defs)
  have p: "mset (elems (get numericLastDocument ''nodes''))
             = mset (elems (get numericFirstDocument ''nodes''))"
    by (simp add: numericFirstDocument_def numericLastDocument_def)
  have t: "calculateWorkflowHash lc sha numericLastDocument = Inl TypeError"
    by (simp add: numericLastDocument_def numericTypeNode_def plainNode_def hash_defs)
  have f: "\<exists>h. calculateWorkflowHash lc sha numericFirstDocument = Inr h"
    by (simp add: numericFirstDocument_def numericTypeNode_def plainNode_def hash_defs
          eval_defs Let_def)
  from v p t f show ?thesis by simp
qed

theorem permutation_changes_outcome_witness:
  "calculateWorkflowHash codeUnitCompare (\<lambda>s. s) numericLastDocument
     \<noteq> calculateWorkflowHash codeUnitCompare (\<lambda>s. s) numericFirstDocument"
  using permutation_changes_outcome[of codeUnitCompare "\<lambda>s. s"] by auto

subsection \<open>Where the order of the arrays does not matter\<close>

text \<open>
  The sort gives one result for every order of its input when the comparison function
  is a strict total order on the elements: the insertion keeps the elements placed so
  far in descending order, nearest first, and a list in order is determined by its
  elements.
\<close>

lemma insertBy_ordered:
  assumes ord: "strictOrderOn S cmp f"
    and x: "x \<in> S" and placed: "set placed \<subseteq> S"
    and sorted: "sorted_wrt (\<lambda>a b. \<not> f a b < 0) placed"
  shows "\<exists>r. insertBy cmp x placed = Inr r \<and> sorted_wrt (\<lambda>a b. \<not> f a b < 0) r
             \<and> mset r = add_mset x (mset placed)"
  using placed sorted
proof (induction placed)
  case Nil
  then show ?case by simp
next
  case (Cons y placed)
  from Cons.prems have y: "y \<in> S" and sub: "set placed \<subseteq> S"
    and below: "\<forall>z\<in>set placed. \<not> f y z < 0"
    and rest: "sorted_wrt (\<lambda>a b. \<not> f a b < 0) placed"
    by auto
  from ord x y have cmp: "cmp x y = Inr (f x y)" by (simp add: strictOrderOn_def)
  show ?case
  proof (cases "f x y < 0")
    case True
    from Cons.IH[OF sub rest] obtain r where r: "insertBy cmp x placed = Inr r"
      "sorted_wrt (\<lambda>a b. \<not> f a b < 0) r" "mset r = add_mset x (mset placed)"
      by blast
    from ord x y have "(f x y < 0) = (0 < f y x)" unfolding strictOrderOn_def by blast
    with True have "\<not> f y x < 0" by simp
    moreover from r(3) have "set r = set (x # placed)" by (intro mset_eq_setD) simp
    ultimately have "\<forall>z\<in>set r. \<not> f y z < 0" using below by simp
    with r True cmp show ?thesis by simp
  next
    case False
    have "\<not> f x z < 0" if z: "z \<in> set placed" for z
    proof
      assume lt: "f x z < 0"
      from z sub have zS: "z \<in> S" by auto
      show False
      proof (cases "f x y = 0")
        case True
        with ord x y have "x = y" by (simp add: strictOrderOn_def)
        with below z lt show False by simp
      next
        case neq: False
        with False have "0 < f x y" by simp
        moreover from ord x y have "(f y x < 0) = (0 < f x y)"
          unfolding strictOrderOn_def by blast
        ultimately have "f y x < 0" by simp
        with lt ord x y zS have "f y z < 0" unfolding strictOrderOn_def by blast
        with below z show False by simp
      qed
    qed
    with False rest below cmp show ?thesis by auto
  qed
qed

lemma sortFrom_ordered:
  assumes ord: "strictOrderOn S cmp f"
    and xs: "set xs \<subseteq> S" and placed: "set placed \<subseteq> S"
    and sorted: "sorted_wrt (\<lambda>a b. \<not> f a b < 0) placed"
  shows "\<exists>r. sortFrom cmp placed xs = Inr r \<and> sorted_wrt (\<lambda>a b. \<not> f b a < 0) r
             \<and> mset r = mset placed + mset xs"
  using xs placed sorted
proof (induction xs arbitrary: placed)
  case Nil
  have "sorted_wrt (\<lambda>a b. \<not> f b a < 0) (rev placed)"
    using Nil.prems(3) by (simp add: sorted_wrt_rev)
  then show ?case by simp
next
  case (Cons x xs)
  from Cons.prems have x: "x \<in> S" and xs: "set xs \<subseteq> S" by auto
  from insertBy_ordered[OF ord x Cons.prems(2,3)]
  obtain p where p: "insertBy cmp x placed = Inr p" "sorted_wrt (\<lambda>a b. \<not> f a b < 0) p"
    "mset p = add_mset x (mset placed)"
    by blast
  from p(3) have "set p = set (x # placed)" by (intro mset_eq_setD) simp
  with x Cons.prems(2) have "set p \<subseteq> S" by simp
  from Cons.IH[OF xs this p(2)] p show ?case by auto
qed

lemma ordered_unique:
  assumes "sorted_wrt (\<lambda>a b. \<not> lt b a) xs" "sorted_wrt (\<lambda>a b. \<not> lt b a) ys"
    and "mset xs = mset ys"
    and "\<forall>a\<in>set xs. \<forall>b\<in>set xs. \<not> lt a b \<longrightarrow> \<not> lt b a \<longrightarrow> a = b"
  shows "xs = ys"
  using assms
proof (induction xs arbitrary: ys)
  case Nil
  then show ?case by simp
next
  case (Cons x xs)
  from Cons.prems(3) obtain y ys' where ys: "ys = y # ys'" by (cases ys) auto
  have sets: "set (x # xs) = set (y # ys')"
    using Cons.prems(3) ys by (intro mset_eq_setD) simp
  have "x = y"
  proof (rule ccontr)
    assume neq: "x \<noteq> y"
    with sets have mem: "x \<in> set ys'" "y \<in> set xs" by auto
    with Cons.prems(1,2) ys have "\<not> lt x y" "\<not> lt y x" by auto
    with Cons.prems(4) mem(2) neq show False by auto
  qed
  from Cons.prems(1) have "sorted_wrt (\<lambda>a b. \<not> lt b a) xs" by simp
  moreover from Cons.prems(2) ys have "sorted_wrt (\<lambda>a b. \<not> lt b a) ys'" by simp
  moreover from \<open>x = y\<close> Cons.prems(3) ys have "mset xs = mset ys'" by simp
  moreover from Cons.prems(4)
  have "\<forall>a\<in>set xs. \<forall>b\<in>set xs. \<not> lt a b \<longrightarrow> \<not> lt b a \<longrightarrow> a = b" by simp
  ultimately have "xs = ys'" by (rule Cons.IH)
  with \<open>x = y\<close> ys show ?case by simp
qed

lemma sortBy_permutation:
  assumes ord: "strictOrderOn (set xs) cmp f"
    and perm: "mset ys = mset xs"
  shows "sortBy cmp ys = sortBy cmp xs"
proof -
  from perm have sets: "set ys = set xs" by (rule mset_eq_setD)
  from sortFrom_ordered[OF ord, of xs "[]"]
  obtain r where r: "sortBy cmp xs = Inr r" "sorted_wrt (\<lambda>a b. \<not> f b a < 0) r" "mset r = mset xs"
    by (auto simp: sortBy_def)
  from sortFrom_ordered[OF ord, of ys "[]"] sets
  obtain r' where r': "sortBy cmp ys = Inr r'" "sorted_wrt (\<lambda>a b. \<not> f b a < 0) r'"
    "mset r' = mset ys"
    by (auto simp: sortBy_def)
  from r(3) have "set r = set xs" by (rule mset_eq_setD)
  with ord have "\<forall>a\<in>set r. \<forall>b\<in>set r. \<not> f a b < 0 \<longrightarrow> \<not> f b a < 0 \<longrightarrow> a = b"
    unfolding strictOrderOn_def by (metis linorder_neqE_linordered_idom)
  from ordered_unique[of "\<lambda>a b. f a b < 0" r r', OF r(2) r'(2) _ this] r(3) r'(3) perm
  have "r = r'" by simp
  with r r' show ?thesis by simp
qed


text \<open>
  The comparison function of the edges is such an order when the host's collation is
  strict, because the serialization is injective; the comparison function of the nodes
  is one on the nodes whose \<^verbatim>\<open>type\<close> is a string.
\<close>

lemma strictOrderOn_subset: "strictOrderOn S cmp f \<Longrightarrow> T \<subseteq> S \<Longrightarrow> strictOrderOn T cmp f"
  unfolding strictOrderOn_def by (intro conjI) blast+

lemma strictOrderOn_key:
  assumes lc: "strictCollation lc" and inj: "inj_on k S"
  shows "strictOrderOn S (\<lambda>a b. Inr (lc (k a) (k b))) (\<lambda>a b. lc (k a) (k b))"
proof -
  from lc have eq: "\<And>a b. lc a b = 0 \<longleftrightarrow> a = b"
    and anti: "\<And>a b. lc a b < 0 \<longleftrightarrow> 0 < lc b a"
    and trans: "\<And>a b c. lc a b < 0 \<Longrightarrow> lc b c < 0 \<Longrightarrow> lc a c < 0"
    unfolding strictCollation_def by blast+
  show ?thesis
    unfolding strictOrderOn_def
  proof (intro conjI ballI impI)
    fix a b assume "a \<in> S" "b \<in> S" "lc (k a) (k b) = 0"
    with eq inj show "a = b" by (auto dest: inj_onD)
  next
    fix a b show "(lc (k a) (k b) < 0) = (0 < lc (k b) (k a))" by (rule anti)
  next
    fix a b c assume "lc (k a) (k b) < 0" "lc (k b) (k c) < 0"
    then show "lc (k a) (k c) < 0" by (rule trans)
  qed simp
qed

lemma compareEdges_order:
  "strictCollation lc \<Longrightarrow> strictOrderOn S (compareEdges lc)
     (\<lambda>a b. lc (stringify (cedgeJson a)) (stringify (cedgeJson b)))"
proof -
  assume lc: "strictCollation lc"
  have "inj_on (\<lambda>e. stringify (cedgeJson e)) S"
    by (auto simp: inj_on_def dest!: stringify_inj cedgeJson_inj)
  moreover have "compareEdges lc = (\<lambda>a b. Inr (lc (stringify (cedgeJson a)) (stringify (cedgeJson b))))"
    by (simp add: fun_eq_iff compareEdges_def)
  ultimately show ?thesis using strictOrderOn_key[OF lc] by simp
qed


lemma compareNodes_order:
  assumes lc: "strictCollation lc"
  shows "strictOrderOn {a. \<exists>s. ctype a = Some (JStr s)} (compareNodes lc)
     (\<lambda>a b. if lc (typeKey a) (typeKey b) \<noteq> 0 then lc (typeKey a) (typeKey b)
             else lc (stringify (cdata a)) (stringify (cdata b)))"
    (is "strictOrderOn ?S _ ?f")
proof -
  from lc have eq: "\<And>a b. lc a b = 0 \<longleftrightarrow> a = b"
    and anti: "\<And>a b. lc a b < 0 \<longleftrightarrow> 0 < lc b a"
    and trans: "\<And>a b c. lc a b < 0 \<Longrightarrow> lc b c < 0 \<Longrightarrow> lc a c < 0"
    unfolding strictCollation_def by blast+
  have less: "?f a b < 0 \<longleftrightarrow> lc (typeKey a) (typeKey b) < 0
      \<or> typeKey a = typeKey b \<and> lc (stringify (cdata a)) (stringify (cdata b)) < 0" for a b
    using eq[of "typeKey a" "typeKey b"] by auto
  have greater: "0 < ?f b a \<longleftrightarrow> lc (typeKey a) (typeKey b) < 0
      \<or> typeKey a = typeKey b \<and> lc (stringify (cdata a)) (stringify (cdata b)) < 0" for a b
    using eq[of "typeKey b" "typeKey a"] anti[of "typeKey a" "typeKey b"]
      anti[of "stringify (cdata a)" "stringify (cdata b)"] by auto
  have str: "orElse (ctype a) (JStr []) = JStr (typeKey a)" if "a \<in> ?S" for a
    using that by (auto simp: typeKey_def)
  show ?thesis
    unfolding strictOrderOn_def
  proof (intro conjI ballI impI)
    fix a b assume "a \<in> ?S" "b \<in> ?S"
    then show "compareNodes lc a b = Inr (?f a b)"
      by (simp add: compareNodes_def str Let_def)
  next
    fix a b assume a: "a \<in> ?S" and b: "b \<in> ?S" and z: "?f a b = 0"
    from z have t: "lc (typeKey a) (typeKey b) = 0" by (auto split: if_splits)
    with z have "lc (stringify (cdata a)) (stringify (cdata b)) = 0" by simp
    with eq have "cdata a = cdata b" by (auto dest: stringify_inj)
    moreover from t eq have "typeKey a = typeKey b" by simp
    with a b have "ctype a = ctype b" by (auto simp: typeKey_def)
    ultimately show "a = b" by (simp add: cnode.expand)
  next
    fix a b show "(?f a b < 0) = (0 < ?f b a)"
      unfolding less greater ..
  next
    fix a b c assume "?f a b < 0" "?f b c < 0"
    then have "lc (typeKey a) (typeKey b) < 0
        \<or> typeKey a = typeKey b \<and> lc (stringify (cdata a)) (stringify (cdata b)) < 0"
      "lc (typeKey b) (typeKey c) < 0
        \<or> typeKey b = typeKey c \<and> lc (stringify (cdata b)) (stringify (cdata c)) < 0"
      unfolding less by blast+
    then have "lc (typeKey a) (typeKey c) < 0
        \<or> typeKey a = typeKey c \<and> lc (stringify (cdata a)) (stringify (cdata c)) < 0"
      using trans[of "typeKey a" "typeKey b" "typeKey c"]
        trans[of "stringify (cdata a)" "stringify (cdata b)" "stringify (cdata c)"]
      by auto
    then show "?f a c < 0" unfolding less .
  qed
qed

text \<open>
  The two \<^verbatim>\<open>map\<close> calls: the results for a permuted array are a permutation of the
  results, or the call throws for both arrays. When the ids of the nodes are pairwise
  different, \<^verbatim>\<open>find\<close> returns the same node for every order of the nodes.
\<close>

lemma mapE_total: "\<forall>x\<in>set xs. f x = Inr (g x) \<Longrightarrow> mapE f xs = Inr (map g xs)"
  by (induction xs) simp_all

lemma mapE_Inl: "x \<in> set xs \<Longrightarrow> f x = Inl e \<Longrightarrow> mapE f xs = Inl TypeError"
proof (induction xs)
  case Nil
  then show ?case by simp
next
  case (Cons a xs)
  show ?case
  proof (cases "f a")
    case (Inl e')
    then show ?thesis by (cases e') (simp add: bindE_def)
  next
    case (Inr y)
    with Cons have "mapE f xs = Inl TypeError" by auto
    with Inr show ?thesis by (simp add: bindE_def)
  qed
qed

lemma mapE_permutation:
  assumes "mset ys = mset xs"
  shows "mapE h xs = Inl TypeError \<and> mapE h ys = Inl TypeError
       \<or> (\<exists>r r'. mapE h xs = Inr r \<and> mapE h ys = Inr r' \<and> mset r' = mset r)"
proof (cases "\<forall>x\<in>set xs. \<exists>y. h x = Inr y")
  case True
  from assms have sets: "set ys = set xs" by (rule mset_eq_setD)
  from True have "\<forall>x\<in>set xs. h x = Inr (projr (h x))" by auto
  with sets have "mapE h xs = Inr (map (\<lambda>x. projr (h x)) xs)"
    "mapE h ys = Inr (map (\<lambda>x. projr (h x)) ys)"
    by (auto intro!: mapE_total)
  moreover from assms have "mset (map (\<lambda>x. projr (h x)) ys) = mset (map (\<lambda>x. projr (h x)) xs)"
    by (metis mset_map)
  ultimately show ?thesis by simp
next
  case False
  then obtain x e where x: "x \<in> set xs" "h x = Inl e" by (metis sum.exhaust_sel)
  moreover from assms x have "x \<in> set ys" by (metis mset_eq_setD)
  ultimately show ?thesis by (auto dest: mapE_Inl)
qed

lemma strictEq_eq: "strictEq a x \<Longrightarrow> a = x"
  by (induction a x rule: strictEq.induct) auto

lemma findNode_find:
  "JNull \<notin> set ns \<Longrightarrow> findNode ns x = Inr (find (\<lambda>n. strictEq (get n ''id'') x) ns)"
  by (induction ns) auto

lemma find_permutation:
  assumes "\<forall>a\<in>set xs. \<forall>b\<in>set xs. P a \<longrightarrow> P b \<longrightarrow> a = b" and "set ys = set xs"
  shows "find P ys = find P xs"
proof (cases "find P xs")
  case None
  then have "\<forall>x\<in>set xs. \<not> P x" by (simp add: find_None_iff)
  with assms(2) have "find P ys = None" by (simp add: find_None_iff)
  with None show ?thesis by simp
next
  case (Some a)
  then have a: "a \<in> set xs" "P a" by (auto simp: find_Some_iff)
  with assms(2) have "find P ys \<noteq> None" by (auto simp: find_None_iff)
  then obtain b where b: "find P ys = Some b" by auto
  then have "b \<in> set ys" "P b" by (auto simp: find_Some_iff)
  with assms a have "a = b" by auto
  with Some b show ?thesis by simp
qed

lemma findNode_permutation:
  assumes "JNull \<notin> set ns" and "distinct (map (\<lambda>n. get n ''id'') ns)" and "mset ns' = mset ns"
  shows "findNode ns' x = findNode ns x"
proof -
  from assms(3) have sets: "set ns' = set ns" by (rule mset_eq_setD)
  have "a = b" if "a \<in> set ns" "b \<in> set ns" "strictEq (get a ''id'') x" "strictEq (get b ''id'') x"
    for a b
  proof -
    from that(3,4) have "get a ''id'' = get b ''id''" by (auto dest: strictEq_eq)
    with assms(2) that(1,2) show ?thesis by (auto simp: distinct_map dest: inj_onD)
  qed
  then have "find (\<lambda>n. strictEq (get n ''id'') x) ns' = find (\<lambda>n. strictEq (get n ''id'') x) ns"
    using sets by (intro find_permutation) auto
  with assms(1) sets show ?thesis by (simp add: findNode_find)
qed

text \<open>
  The fingerprint does not depend on the order of the nodes and of the edges for the
  documents in which the \<^verbatim>\<open>type\<close> of every node is a string and the ids of the nodes are
  pairwise different, on a host whose collation is strict; equally when the fingerprint
  is an exception, which a null edge causes for every order. The documents
  \<open>emptyTypeFirstDocument\<close> and \<open>numericFirstDocument\<close> are outside: each has a node
  whose \<^verbatim>\<open>type\<close> is not a string.
\<close>

theorem permutation_invariance:
  assumes lc: "strictCollation lc"
    and ns: "get c ''nodes'' = Some (JArr ns)" and ns': "get c' ''nodes'' = Some (JArr ns')"
    and pn: "mset ns' = mset ns"
    and es: "get c ''edges'' = Some (JArr es)" and es': "get c' ''edges'' = Some (JArr es')"
    and pe: "mset es' = mset es"
    and types: "\<forall>n\<in>set ns. \<exists>s. get n ''type'' = Some (JStr s)"
    and ids: "distinct (map (\<lambda>n. get n ''id'') ns)"
  shows "calculateWorkflowHash lc sha c' = calculateWorkflowHash lc sha c"
proof -
  define g where "g n = CNode (get n ''type'')
      (normalizeNodeData (orElse (get n ''data'') (orElse (get n ''config'') (JObj []))))" for n
  from pn have sets: "set ns' = set ns" by (rule mset_eq_setD)
  from types have nonnull: "JNull \<notin> set ns" by auto
  then have "\<forall>n\<in>set ns. canonNode n = Inr (g n)" by (auto simp: canonNode_def g_def)
  with sets have mapped: "mapE canonNode ns = Inr (map g ns)" "mapE canonNode ns' = Inr (map g ns')"
    by (auto intro!: mapE_total)
  from pn have pm: "mset (map g ns') = mset (map g ns)" by (metis mset_map)
  from types have "set (map g ns) \<subseteq> {a. \<exists>s. ctype a = Some (JStr s)}" by (auto simp: g_def)
  from strictOrderOn_subset[OF compareNodes_order[OF lc] this] pm
  have nodes: "sortBy (compareNodes lc) (map g ns') = sortBy (compareNodes lc) (map g ns)"
    by (rule sortBy_permutation)
  have "findNodeType (Some (JArr ns')) x = findNodeType (Some (JArr ns)) x" for x
    using findNode_permutation[OF nonnull ids pn] by (simp add: findNodeType_def)
  then have ce: "canonEdge (Some (JArr ns')) = canonEdge (Some (JArr ns))"
    by (auto simp: canonEdge_def fun_eq_iff)
  have edges: "bindE (mapE (canonEdge (Some (JArr ns))) es')
                 (\<lambda>mappedEdges. bindE (sortBy (compareEdges lc) mappedEdges) k)
             = bindE (mapE (canonEdge (Some (JArr ns))) es)
                 (\<lambda>mappedEdges. bindE (sortBy (compareEdges lc) mappedEdges) k)" for k
  proof -
    from mapE_permutation[OF pe, of "canonEdge (Some (JArr ns))"]
    show ?thesis
    proof (elim disjE exE conjE)
      fix r r' assume r: "mapE (canonEdge (Some (JArr ns))) es = Inr r"
        "mapE (canonEdge (Some (JArr ns))) es' = Inr r'" "mset r' = mset r"
      from compareEdges_order[OF lc, of "set r"] r(3)
      have "sortBy (compareEdges lc) r' = sortBy (compareEdges lc) r" by (rule sortBy_permutation)
      with r show ?thesis by simp
    qed simp
  qed
  from ns ns' have "c \<noteq> JNull" "c' \<noteq> JNull" by auto
  then have "normalizeWorkflowForHash lc c' = normalizeWorkflowForHash lc c"
    by (simp add: normalizeWorkflowForHash_def ns ns' es es' mapped nodes ce edges)
  then show ?thesis by (simp add: calculateWorkflowHash_def canonicalString_def)
qed


text \<open>
  The comparison of the code units is a strict collation, and \<open>wrappedDocument\<close> with
  its nodes in the other order has the fingerprint of \<open>wrappedDocument\<close>.
\<close>

lemma codeUnitCompare_Cons:
  "codeUnitCompare (x # xs) (y # ys) =
     (if (of_char x :: nat) < of_char y then - 1
      else if x = y then codeUnitCompare xs ys else 1)"
proof -
  have "x = y" if "\<not> (of_char x :: nat) < of_char y" "\<not> (of_char y :: nat) < of_char x"
  proof -
    from that have "(of_char x :: nat) = of_char y" by simp
    then show ?thesis by simp
  qed
  then show ?thesis by auto
qed

lemma codeUnitCompare_eq: "codeUnitCompare a b = 0 \<longleftrightarrow> a = b"
proof (induction a b rule: codeUnitCompare.induct)
  case (4 x xs y ys)
  then show ?case by (auto simp only: codeUnitCompare_Cons list.inject split: if_splits)
qed simp_all


lemma codeUnitCompare_anti: "codeUnitCompare a b < 0 \<longleftrightarrow> 0 < codeUnitCompare b a"
proof (induction a b rule: codeUnitCompare.induct)
  case (4 x xs y ys)
  have "(of_char x :: nat) < of_char y \<or> x = y \<or> (of_char y :: nat) < of_char x"
    using codeUnitCompare_Cons[of x xs y ys] by (auto split: if_splits)
  then show ?case
  proof (elim disjE)
    assume "x = y"
    with 4 show ?thesis by simp
  qed simp_all
qed simp_all

lemma codeUnitCompare_less:
  "codeUnitCompare (x # xs) (y # ys) < 0
     \<longleftrightarrow> (of_char x :: nat) < of_char y \<or> x = y \<and> codeUnitCompare xs ys < 0"
  by (simp only: codeUnitCompare_Cons) auto

lemma codeUnitCompare_trans:
  "codeUnitCompare a b < 0 \<Longrightarrow> codeUnitCompare b c < 0 \<Longrightarrow> codeUnitCompare a c < 0"
proof (induction a b arbitrary: c rule: codeUnitCompare.induct)
  case 1
  then show ?case by simp
next
  case (2 y ys)
  then show ?case by (cases c) simp_all
next
  case (3 x xs)
  then show ?case by simp
next
  case (4 x xs y ys)
  from 4(3) obtain z zs where c: "c = z # zs" by (cases c) simp_all
  from 4(2) have xy: "(of_char x :: nat) < of_char y \<or> x = y \<and> codeUnitCompare xs ys < 0"
    by (simp only: codeUnitCompare_less)
  from 4(3) c have yz: "(of_char y :: nat) < of_char z \<or> y = z \<and> codeUnitCompare ys zs < 0"
    by (simp only: codeUnitCompare_less)
  have "(of_char x :: nat) < of_char z \<or> x = z \<and> codeUnitCompare xs zs < 0"
  proof (cases "x = y \<and> y = z")
    case True
    with xy yz have "codeUnitCompare xs ys < 0" "codeUnitCompare ys zs < 0" by auto
    moreover from True xy have "\<not> (of_char x :: nat) < of_char y" "\<not> (of_char y :: nat) < of_char x"
      by auto
    ultimately have "codeUnitCompare xs zs < 0" using 4(1) by blast
    with True show ?thesis by simp
  next
    case False
    with xy yz have "(of_char x :: nat) < of_char z" by auto
    then show ?thesis ..
  qed
  with c show ?case by (simp only: codeUnitCompare_less)
qed

lemma strictCollation_codeUnitCompare: "strictCollation codeUnitCompare"
  unfolding strictCollation_def
proof (intro conjI allI impI)
  fix a b c assume "codeUnitCompare a b < 0" "codeUnitCompare b c < 0"
  then show "codeUnitCompare a c < 0" by (rule codeUnitCompare_trans)
qed (rule codeUnitCompare_eq codeUnitCompare_anti)+

theorem permutation_invariance_instance:
  "calculateWorkflowHash codeUnitCompare (\<lambda>s. s) wrappedReversed
     = calculateWorkflowHash codeUnitCompare (\<lambda>s. s) wrappedDocument"
proof -
  have "mset (elems (get wrappedReversed ''nodes'')) = mset (elems (get wrappedDocument ''nodes''))"
    by (simp add: wrappedDocument_def wrappedReversed_def)
  moreover have "get wrappedDocument ''nodes'' = Some (JArr (elems (get wrappedDocument ''nodes'')))"
    "get wrappedReversed ''nodes'' = Some (JArr (elems (get wrappedReversed ''nodes'')))"
    "get wrappedDocument ''edges'' = Some (JArr (elems (get wrappedDocument ''edges'')))"
    "get wrappedReversed ''edges'' = Some (JArr (elems (get wrappedReversed ''edges'')))"
    "mset (elems (get wrappedReversed ''edges'')) = mset (elems (get wrappedDocument ''edges''))"
    "\<forall>n\<in>set (elems (get wrappedDocument ''nodes'')). \<exists>s. get n ''type'' = Some (JStr s)"
    "distinct (map (\<lambda>n. get n ''id'') (elems (get wrappedDocument ''nodes'')))"
    by (simp_all add: wrappedDocument_def wrappedReversed_def)
  ultimately show ?thesis
    using permutation_invariance[OF strictCollation_codeUnitCompare,
        of wrappedDocument "elems (get wrappedDocument ''nodes'')"
           wrappedReversed "elems (get wrappedReversed ''nodes'')"
           "elems (get wrappedDocument ''edges'')" "elems (get wrappedReversed ''edges'')"
           "\<lambda>s. s"]
    by blast
qed

subsection \<open>The store after a call\<close>

lemma normalized_cell:
  "foldl (\<lambda>s entry. storeWrite (length st)
            (JObj (normalizeStep (objectEntries (s ! length st)) entry)) s)
       (st @ [JObj props]) entries
     = st @ [JObj (foldl normalizeStep props entries)]"
  by (induction entries arbitrary: props) (simp_all add: storeWrite_def)

lemma normalizeNodeDataS_eq:
  "normalizeNodeDataS data st = (length st, st @ [normalizeNodeData data])"
  by (simp add: normalizeNodeDataS_def storeAlloc_def normalized_cell normalizeNodeData_def)

lemma canonNodeS_eq:
  "fst (canonNodeS node st) = canonNode node \<and> (\<exists>ys. snd (canonNodeS node st) = st @ ys)"
  by (simp add: canonNodeS_def canonNode_def normalizeNodeDataS_eq)

lemma mapNodesS_eq:
  "fst (mapNodesS ns st) = mapE canonNode ns \<and> (\<exists>ys. snd (mapNodesS ns st) = st @ ys)"
proof (induction ns arbitrary: st)
  case Nil
  then show ?case by simp
next
  case (Cons n ns)
  obtain st1 where c: "canonNodeS n st = (canonNode n, st1)"
    using canonNodeS_eq[of n st] by (cases "canonNodeS n st") auto
  with canonNodeS_eq[of n st] obtain ys where st1: "st1 = st @ ys" by auto
  show ?case
  proof (cases "canonNode n")
    case (Inl e)
    with c st1 show ?thesis by simp
  next
    case (Inr y)
    obtain st2 where m: "mapNodesS ns st1 = (mapE canonNode ns, st2)"
      using Cons.IH[of st1] by (cases "mapNodesS ns st1") auto
    with Cons.IH[of st1] obtain zs where st2: "st2 = st1 @ zs" by auto
    from c Inr m st1 st2 show ?thesis
      by (cases "mapE canonNode ns") simp_all
  qed
qed

lemma sortCellS_eq:
  "fst (sortCellS toJson cmp mapped st) = sortBy cmp mapped
   \<and> (\<exists>ys. snd (sortCellS toJson cmp mapped st) = st @ ys)"
  by (cases "sortBy cmp mapped") (simp_all add: sortCellS_def storeAlloc_def storeWrite_def)


lemma normalizeWorkflowForHashS_eq:
  "fst (normalizeWorkflowForHashS lc content st) = normalizeWorkflowForHash lc content
   \<and> (\<exists>ys. snd (normalizeWorkflowForHashS lc content st) = st @ ys)"
proof (cases "content = JNull")
  case True
  then show ?thesis
    by (simp add: normalizeWorkflowForHashS_def normalizeWorkflowForHash_def)
next
  case notnull: False
  show ?thesis
  proof (cases "arrayOrEmpty (get content ''nodes'')")
    case (Inl e)
    with notnull show ?thesis
      by (simp add: normalizeWorkflowForHashS_def normalizeWorkflowForHash_def)
  next
    case (Inr ns)
    obtain st1 where m: "mapNodesS ns st = (mapE canonNode ns, st1)"
      using mapNodesS_eq[of ns st] by (cases "mapNodesS ns st") auto
    with mapNodesS_eq[of ns st] obtain ys where st1: "st1 = st @ ys" by auto
    show ?thesis
    proof (cases "mapE canonNode ns")
      case (Inl e)
      with notnull Inr m st1 show ?thesis
        by (simp add: normalizeWorkflowForHashS_def normalizeWorkflowForHash_def)
    next
      case mapped: (Inr mapped)
      obtain st2 where s: "sortCellS cnodeJson (compareNodes lc) mapped st1
          = (sortBy (compareNodes lc) mapped, st2)"
        using sortCellS_eq[of cnodeJson "compareNodes lc" mapped st1]
        by (cases "sortCellS cnodeJson (compareNodes lc) mapped st1") auto
      with sortCellS_eq[of cnodeJson "compareNodes lc" mapped st1]
      obtain zs where st2: "st2 = st1 @ zs" by auto
      show ?thesis
      proof (cases "sortBy (compareNodes lc) mapped")
        case (Inl e)
        with notnull Inr m mapped s st1 st2 show ?thesis
          by (simp add: normalizeWorkflowForHashS_def normalizeWorkflowForHash_def)
      next
        case nodes: (Inr nodes)
        show ?thesis
        proof (cases "bindE (arrayOrEmpty (get content ''edges''))
                        (mapE (canonEdge (get content ''nodes'')))")
          case (Inl e)
          with notnull Inr m mapped s nodes st1 st2 show ?thesis
            by (simp add: normalizeWorkflowForHashS_def normalize_alt)
        next
          case edges: (Inr mappedEdges)
          obtain st3 where s3: "sortCellS cedgeJson (compareEdges lc) mappedEdges st2
              = (sortBy (compareEdges lc) mappedEdges, st3)"
            using sortCellS_eq[of cedgeJson "compareEdges lc" mappedEdges st2]
            by (cases "sortCellS cedgeJson (compareEdges lc) mappedEdges st2") auto
          with sortCellS_eq[of cedgeJson "compareEdges lc" mappedEdges st2]
          obtain ws where st3: "st3 = st2 @ ws" by auto
          from notnull Inr m mapped s nodes edges s3 st1 st2 st3 show ?thesis
            by (cases "sortBy (compareEdges lc) mappedEdges")
               (simp_all add: normalizeWorkflowForHashS_def normalize_alt)
        qed
      qed
    qed
  qed
qed

lemma calculateWorkflowHashS_eq:
  "fst (calculateWorkflowHashS lc sha doc st) = calculateWorkflowHash lc sha (st ! doc)
   \<and> (\<exists>ys. snd (calculateWorkflowHashS lc sha doc st) = st @ ys)"
proof -
  obtain st1 where n: "normalizeWorkflowForHashS lc (st ! doc) st
      = (normalizeWorkflowForHash lc (st ! doc), st1)"
    using normalizeWorkflowForHashS_eq[of lc "st ! doc" st]
    by (cases "normalizeWorkflowForHashS lc (st ! doc) st") auto
  with normalizeWorkflowForHashS_eq[of lc "st ! doc" st] obtain ys where "st1 = st @ ys" by auto
  with n show ?thesis
    by (cases "normalizeWorkflowForHash lc (st ! doc)")
       (simp_all add: calculateWorkflowHashS_def calculateWorkflowHash_def canonicalString_def)
qed


lemma checkNodesS_eq:
  assumes "a < length st" "st ! a = JArr unk"
  shows "case checkNodes i ns (vc, unk) of
           Inl e \<Rightarrow> \<exists>w. checkNodesS a i ns vc st = (Inl e, st[a := w])
         | Inr r \<Rightarrow> checkNodesS a i ns vc st = (Inr (fst r), st[a := JArr (snd r)])"
  using assms
proof (induction ns arbitrary: i vc unk st)
  case Nil
  then show ?case by (simp add: list_update_same_conv[THEN iffD2])
next
  case (Cons n ns)
  show ?case
  proof (cases "checkNode i n (vc, unk)")
    case (Inl e)
    with Cons.prems show ?thesis
      by (auto intro: exI[of _ "JArr unk"] simp: list_update_same_conv[THEN iffD2])
  next
    case (Inr r)
    define st1 where "st1 = storeWrite a (JArr (snd r)) st"
    have st1: "a < length st1" "st1 ! a = JArr (snd r)"
      using Cons.prems by (simp_all add: st1_def storeWrite_def)
    have step: "checkNodesS a i (n # ns) vc st = checkNodesS a (i + 1) ns (fst r) st1"
      using Inr Cons.prems by (simp add: st1_def)
    have over: "st1[a := w] = st[a := w]" for w
      by (simp add: st1_def storeWrite_def)
    from Cons.IH[OF st1, of "i + 1" "fst r"] Inr step over show ?thesis
      by (cases "checkNodes (i + 1) ns (fst r, snd r)") (auto simp: prod.collapse)
  qed
qed

lemma validateWorkflowContentS_eq:
  "fst (validateWorkflowContentS doc st) = validateWorkflowContent (Some (st ! doc))
   \<and> (\<exists>ys. snd (validateWorkflowContentS doc st) = st @ ys)"
proof -
  define content where "content = st ! doc"
  define st1 where "st1 = st @ [JArr []]"
  have cell: "length st < length st1" "st1 ! length st = JArr []"
    by (simp_all add: st1_def)
  have upd: "st1[length st := w] = st @ [w]" for w
    by (simp add: st1_def)
  have loop: "(case checkNodesS (length st) 0 (elems (get content ''nodes'')) 0 st1 of
           (Inl e, st2) \<Rightarrow> (Inr (Invalid e), st2)
         | (Inr validNodeCount, st2) \<Rightarrow>
             (afterNodes content (validNodeCount, elems (Some (st2 ! length st))), st2))
      = (case checkNodes 0 (elems (get content ''nodes'')) (0, []) of
           Inl e \<Rightarrow> Inr (Invalid e)
         | Inr r \<Rightarrow> afterNodes content r,
         st @ [w])" (is "?l = (?r, _)") if
      "case checkNodes 0 (elems (get content ''nodes'')) (0, []) of
           Inl e \<Rightarrow> checkNodesS (length st) 0 (elems (get content ''nodes'')) 0 st1
                      = (Inl e, st1[length st := w])
         | Inr r \<Rightarrow> checkNodesS (length st) 0 (elems (get content ''nodes'')) 0 st1
                      = (Inr (fst r), st1[length st := JArr (snd r)]) \<and> w = JArr (snd r)"
      for w
    using that by (cases "checkNodes 0 (elems (get content ''nodes'')) (0, [])") (auto simp: upd)
  from checkNodesS_eq[OF cell, of 0 "elems (get content ''nodes'')" 0]
  obtain w where "case checkNodes 0 (elems (get content ''nodes'')) (0, []) of
           Inl e \<Rightarrow> checkNodesS (length st) 0 (elems (get content ''nodes'')) 0 st1
                      = (Inl e, st1[length st := w])
         | Inr r \<Rightarrow> checkNodesS (length st) 0 (elems (get content ''nodes'')) 0 st1
                      = (Inr (fst r), st1[length st := JArr (snd r)]) \<and> w = JArr (snd r)"
    by (cases "checkNodes 0 (elems (get content ''nodes'')) (0, [])") auto
  from loop[OF this] show ?thesis
    by (auto simp: validateWorkflowContentS_def validateWorkflowContent_def storeAlloc_def
          Let_def content_def[symmetric] st1_def[symmetric])
qed

lemma runCall_eq:
  assumes "doc < length st"
  shows "fst (runCall lc sha doc call st) = expected lc sha doc (st ! doc) call
       \<and> (\<exists>ys. snd (runCall lc sha doc call st) = st @ ys)"
proof (cases call)
  case Validate
  with validateWorkflowContentS_eq[of doc st] show ?thesis
    by (cases "validateWorkflowContentS doc st") auto
next
  case Sanitize
  then show ?thesis by (simp add: sanitizeWorkflowS_def)
next
  case Hash
  with calculateWorkflowHashS_eq[of lc sha doc st] show ?thesis
    by (cases "calculateWorkflowHashS lc sha doc st") auto
qed

lemma runCalls_eq:
  assumes "doc < length st"
  shows "fst (runCalls lc sha doc calls st) = map (expected lc sha doc (st ! doc)) calls
       \<and> (\<exists>ys. snd (runCalls lc sha doc calls st) = st @ ys)"
  using assms
proof (induction calls arbitrary: st)
  case Nil
  then show ?case by simp
next
  case (Cons c cs)
  obtain r st1 where r: "runCall lc sha doc c st = (r, st1)" by (cases "runCall lc sha doc c st")
  with runCall_eq[OF Cons.prems, of lc sha c] obtain ys where
    r1: "r = expected lc sha doc (st ! doc) c" and st1: "st1 = st @ ys" by auto
  from st1 Cons.prems have d: "doc < length st1" "st1 ! doc = st ! doc"
    by (simp_all add: nth_append)
  obtain rs st2 where rs: "runCalls lc sha doc cs st1 = (rs, st2)"
    by (cases "runCalls lc sha doc cs st1")
  with Cons.IH[OF d(1)] d(2) obtain zs where
    "rs = map (expected lc sha doc (st ! doc)) cs" "st2 = st1 @ zs" by auto
  with r rs r1 st1 show ?case by simp
qed

text \<open>
  C9 (validation, canonicalization and fingerprinting never change the document, and
  \<^verbatim>\<open>sanitizeWorkflow\<close> returns the submitted content itself). After any sequence of calls
  on the document in the cell \<open>doc\<close>, every cell that existed before the calls, the
  document among them, holds what it held: the calls only add cells. The results of the
  calls are those of the functions of the previous sections on the content of the cell,
  and \<^verbatim>\<open>sanitizeWorkflow\<close> returns the address \<open>doc\<close> it was given, as the function on
  values returns its argument.
\<close>

theorem document_unchanged:
  assumes "doc < length st"
  shows "take (length st) (snd (runCalls lc sha doc calls st)) = st
       \<and> snd (runCalls lc sha doc calls st) ! doc = st ! doc
       \<and> fst (runCalls lc sha doc calls st) = map (expected lc sha doc (st ! doc)) calls
       \<and> fst (sanitizeWorkflowS doc st) = doc
       \<and> sanitizeWorkflow (st ! doc) = st ! doc"
proof -
  from runCalls_eq[OF assms, of lc sha calls] obtain ys where
    "fst (runCalls lc sha doc calls st) = map (expected lc sha doc (st ! doc)) calls"
    "snd (runCalls lc sha doc calls st) = st @ ys"
    by auto
  with assms show ?thesis
    by (simp add: nth_append sanitizeWorkflowS_def sanitizeWorkflow_def)
qed

theorem document_unchanged_witness:
  "snd (runCalls codeUnitCompare (\<lambda>s. s) 0 [Validate, Sanitize, Hash, Validate]
          [labelledDocument]) ! 0 = labelledDocument
   \<and> fst (runCalls codeUnitCompare (\<lambda>s. s) 0 [Validate, Sanitize, Hash, Validate]
          [labelledDocument]) ! 1 = Content 0
   \<and> length (snd (runCalls codeUnitCompare (\<lambda>s. s) 0 [Validate, Sanitize, Hash, Validate]
          [labelledDocument])) = 7"
proof -
  have l: "length (snd (runCalls codeUnitCompare (\<lambda>s. s) 0 [Validate, Sanitize, Hash, Validate]
          [labelledDocument])) = 7"
    by (simp add: labelledDocument_def validateWorkflowContentS_def calculateWorkflowHashS_def
          normalizeWorkflowForHashS_def sortCellS_def canonNodeS_def normalizeNodeDataS_eq
          sanitizeWorkflowS_def storeAlloc_def storeWrite_def hash_defs eval_defs)
  from document_unchanged[of 0 "[labelledDocument]" codeUnitCompare "\<lambda>s. s"
      "[Validate, Sanitize, Hash, Validate]"] l
  show ?thesis by simp
qed

end
